theory Spec2Isabelle
  imports Complex_Main "HOL-Library.Sublist" "HOL-Library.Char_ord" "HOL-Library.List_Lexorder"
begin

section \<open>Errors\<close>

text \<open>
  The exceptions of \<^verbatim>\<open>catboost_axp_explainer2.py\<close> that the modelled functions can raise.
  A \<^verbatim>\<open>ValueError\<close> carries which of the source's messages it was raised with.
\<close>

datatype value_error =
    ObliviousTrees              \<comment> \<open>"Model was trained using oblivious trees. ..."\<close>
  | MissingNonObliviousTrees    \<comment> \<open>"Model JSON missing 'non_oblivious_trees'. ..."\<close>
  | MustProvidePredictedClass   \<comment> \<open>"You must provide the predicted class."\<close>
  | MustProvidePredictions      \<comment> \<open>"Please provide the predicted class labels for each instance."\<close>
  | RangeStepZero               \<comment> \<open>\<^verbatim>\<open>range()\<close> called with step 0\<close>

datatype py_error =
    ValueError value_error
  | KeyError
  | IndexError
  | TypeError
  | ZeroDivisionError

section \<open>Data model\<close>

text \<open>
  A node of a non-oblivious tree of the exported model: a dict with \<^verbatim>\<open>"leaf_value"\<close>, or a dict
  with \<^verbatim>\<open>"split_condition"\<close> (\<^verbatim>\<open>"float_feature_index"\<close>, \<^verbatim>\<open>"border"\<close>), \<^verbatim>\<open>"left_child"\<close> and
  \<^verbatim>\<open>"right_child"\<close>. The type holds the nodes that have these members; a node dict that lacks
  one is not a value of it. Numbers of the JSON (borders, leaf values, feature values) have
  type \<open>'v\<close>; the code only compares them, so the functions ask for \<open>ord\<close> (and \<open>zero\<close>) only.
\<close>

datatype 'v node =
    Leaf (leaf_value: 'v)
  | Split (float_feature_index: nat) (border: 'v) (left_child: "'v node") (right_child: "'v node")

text \<open>An oblivious tree of the export; the parser only tests whether the key is there.\<close>

datatype 'v oblivious_tree = ObliviousTree (splits: "(nat \<times> 'v) list") (leaf_values: "'v list")

text \<open>
  An element of \<^verbatim>\<open>model_json["features_info"]["float_features"]\<close>: a dict that may lack the
  key \<^verbatim>\<open>"flat_feature_index"\<close> or the key \<^verbatim>\<open>"feature_id"\<close> (\<open>None\<close>).
\<close>

record feature_entry =
  flat_feature_index :: "nat option"
  feature_id :: "string option"

text \<open>The dict under \<^verbatim>\<open>"features_info"\<close>, which may lack the key \<^verbatim>\<open>"float_features"\<close>.\<close>

datatype features_info = FeaturesInfo (float_features: "feature_entry list option")

text \<open>
  The model JSON: a dict in which each of the keys \<^verbatim>\<open>"features_info"\<close>, \<^verbatim>\<open>"oblivious_trees"\<close>
  and \<^verbatim>\<open>"non_oblivious_trees"\<close> may be absent (\<open>None\<close>). An element of
  \<open>non_oblivious_trees\<close> is a tree, given by its \<^verbatim>\<open>"nodes"\<close> member (the root node), which
  may be absent as well. Below the root a tree is a value of \<open>node\<close>.
\<close>

record 'v model_json =
  features_info :: "features_info option"
  oblivious_trees :: "'v oblivious_tree list option"
  non_oblivious_trees :: "'v node option list option"

text \<open>A condition is the key \<^verbatim>\<open>(feat_idx, threshold, direction)\<close>; a literal is its integer id.\<close>

type_synonym 'v condition = "nat \<times> 'v \<times> nat"

text \<open>
  The fields of \<^verbatim>\<open>CatBoostSymbolicExplainer\<close> that parsing and explaining use. \<open>id_gen\<close> is the
  value the next \<^verbatim>\<open>next(self._id_gen)\<close> returns (\<^verbatim>\<open>count(1)\<close> at construction).
\<close>

record 'v explainer =
  condition_id_map :: "'v condition \<rightharpoonup> nat"
  id_condition_map :: "nat \<rightharpoonup> 'v condition"
  rule_clauses :: "nat list list"
  rule_predictions :: "int list"
  feature_names :: "nat \<rightharpoonup> string"
  stored_model_json :: "'v model_json option"
  id_gen :: nat

definition init_explainer :: "'v explainer" where
  "init_explainer =
     \<lparr> condition_id_map = Map.empty, id_condition_map = Map.empty, rule_clauses = [],
       rule_predictions = [], feature_names = Map.empty, stored_model_json = None, id_gen = 1 \<rparr>"

section \<open>Condition registry and parser\<close>

text \<open>\<^verbatim>\<open>_get_condition_literal\<close>: the literal of a key, interned when it is new.\<close>

definition get_condition_literal :: "'v condition \<Rightarrow> 'v explainer \<Rightarrow> nat \<times> 'v explainer" where
  "get_condition_literal key s =
     (case condition_id_map s key of
        None \<Rightarrow>
          (let lit = id_gen s;
               s1 = s\<lparr> id_gen := id_gen s + 1 \<rparr>;
               s2 = s1\<lparr> condition_id_map := (condition_id_map s1)(key \<mapsto> lit) \<rparr>;
               s3 = s2\<lparr> id_condition_map := (id_condition_map s2)(lit \<mapsto> key) \<rparr>
           in (lit, s3))
      | Some lit \<Rightarrow> (lit, s))"

text \<open>
  The comprehension \<^verbatim>\<open>[self._get_condition_literal(f, t, d) for (f, t, d) in conditions]\<close>:
  the keys are interned from left to right.
\<close>

fun clause_literals :: "'v condition list \<Rightarrow> 'v explainer \<Rightarrow> nat list \<times> 'v explainer" where
  "clause_literals [] s = ([], s)"
| "clause_literals (key # keys) s =
     (let (lit, s1) = get_condition_literal key s;
          (lits, s2) = clause_literals keys s1
      in (lit # lits, s2))"

text \<open>\<^verbatim>\<open>_traverse_non_oblivious_tree\<close>: one rule per leaf, left child first.\<close>

fun traverse_non_oblivious_tree ::
  "('v::{zero,ord}) node \<Rightarrow> nat list \<Rightarrow> 'v condition list \<Rightarrow> 'v explainer \<Rightarrow> 'v explainer" where
  "traverse_non_oblivious_tree (Leaf lv) path conditions s =
     (let pred = (if lv > 0 then 1 else 0);
          (clause, s1) = clause_literals conditions s;
          s2 = s1\<lparr> rule_clauses := rule_clauses s1 @ [clause] \<rparr>
      in s2\<lparr> rule_predictions := rule_predictions s2 @ [pred] \<rparr>)"
| "traverse_non_oblivious_tree (Split feature_index threshold l r) path conditions s =
     (let s1 = traverse_non_oblivious_tree l (path @ [0])
                 (conditions @ [(feature_index, threshold, 0)]) s
      in traverse_non_oblivious_tree r (path @ [1])
           (conditions @ [(feature_index, threshold, 1)]) s1)"

text \<open>
  The dict comprehension
  \<^verbatim>\<open>{f["flat_feature_index"]: f["feature_id"] for f in model_json["features_info"]["float_features"]}\<close>:
  a missing key, at any of the four subscripts, is a KeyError; a later entry with the same
  index replaces the earlier one.
\<close>

fun feature_names_loop :: "feature_entry list \<Rightarrow> (nat \<rightharpoonup> string) \<Rightarrow> py_error + (nat \<rightharpoonup> string)" where
  "feature_names_loop [] m = Inr m"
| "feature_names_loop (f # fs) m =
     (case flat_feature_index f of
        None \<Rightarrow> Inl KeyError
      | Some i \<Rightarrow>
          (case feature_id f of
             None \<Rightarrow> Inl KeyError
           | Some name \<Rightarrow> feature_names_loop fs (m(i \<mapsto> name))))"

definition read_feature_names :: "'v model_json \<Rightarrow> py_error + (nat \<rightharpoonup> string)" where
  "read_feature_names mj =
     (case features_info mj of
        None \<Rightarrow> Inl KeyError
      | Some info \<Rightarrow>
          (case float_features info of
             None \<Rightarrow> Inl KeyError
           | Some fs \<Rightarrow> feature_names_loop fs Map.empty))"

text \<open>
  The loop \<^verbatim>\<open>for tree in model_json["non_oblivious_trees"]\<close>: \<^verbatim>\<open>tree["nodes"]\<close> is a KeyError
  for a tree without that member, and the rules of the trees before it stay.
\<close>

fun traverse_trees ::
  "('v::{zero,ord}) node option list \<Rightarrow> 'v explainer \<Rightarrow> 'v explainer \<times> (py_error + unit)" where
  "traverse_trees [] s = (s, Inr ())"
| "traverse_trees (tree # trees) s =
     (case tree of
        None \<Rightarrow> (s, Inl KeyError)
      | Some nodes \<Rightarrow> traverse_trees trees (traverse_non_oblivious_tree nodes [] [] s))"

text \<open>
  \<^verbatim>\<open>fit_from_model_json\<close>. The rule lists and both registry maps are cleared first (the id
  generator is not touched); then the feature names are read, which raises KeyError on a
  description without a complete feature table and leaves \<^verbatim>\<open>feature_names\<close> as it was; then
  the two checks on the tree keys; then the traversal of every tree. The explainer is
  returned with the outcome, since a raise leaves the fields as they were set before it.
\<close>

definition fit_from_model_json ::
  "'v explainer \<Rightarrow> ('v::{zero,ord}) model_json \<Rightarrow> 'v explainer \<times> (py_error + unit)" where
  "fit_from_model_json s mj =
     (let s0 = s\<lparr> stored_model_json := Some mj \<rparr>;
          s1 = s0\<lparr> rule_clauses := [], rule_predictions := [],
                    condition_id_map := Map.empty, id_condition_map := Map.empty \<rparr>
      in case read_feature_names mj of
           Inl e \<Rightarrow> (s1, Inl e)
         | Inr names \<Rightarrow>
             (let s2 = s1\<lparr> feature_names := names \<rparr>
              in if oblivious_trees mj \<noteq> None then (s2, Inl (ValueError ObliviousTrees))
                 else (case non_oblivious_trees mj of
                         None \<Rightarrow> (s2, Inl (ValueError MissingNonObliviousTrees))
                       | Some trees \<Rightarrow> traverse_trees trees s2)))"

section \<open>Rule matching\<close>

text \<open>
  \<^verbatim>\<open>_literal_condition_holds\<close>: the literal is looked up in \<^verbatim>\<open>id_condition_map\<close> (a KeyError when
  it is not there), the feature value is read (an IndexError past the end of the row), and
  the comparison follows the direction.
\<close>

definition literal_condition_holds :: "('v::ord) explainer \<Rightarrow> 'v list \<Rightarrow> nat \<Rightarrow> py_error + bool" where
  "literal_condition_holds s x lit =
     (case id_condition_map s lit of
        None \<Rightarrow> Inl KeyError
      | Some (feat_idx, threshold, direction) \<Rightarrow>
          if feat_idx < length x
          then (let val = x ! feat_idx
                in Inr (if direction = 0 then val \<le> threshold else val > threshold))
          else Inl IndexError)"

text \<open>
  \<^verbatim>\<open>all(... for lit in clause)\<close> over a generator: literals are evaluated in order and the first
  false one ends the evaluation, so a later literal that would raise is not reached.
  \<^verbatim>\<open>_satisfied_rules\<close> writes the lookup and the comparison of \<^verbatim>\<open>_literal_condition_holds\<close>
  inline, in the same order.
\<close>

fun all_hold :: "('v::ord) explainer \<Rightarrow> 'v list \<Rightarrow> nat list \<Rightarrow> py_error + bool" where
  "all_hold s x [] = Inr True"
| "all_hold s x (lit # lits) =
     (case literal_condition_holds s x lit of
        Inl e \<Rightarrow> Inl e
      | Inr b \<Rightarrow> if b then all_hold s x lits else Inr False)"

text \<open>The loop of \<^verbatim>\<open>_satisfied_rules\<close> over \<^verbatim>\<open>enumerate(self.rule_clauses)\<close>.\<close>

fun satisfied_rules_loop ::
  "('v::ord) explainer \<Rightarrow> 'v list \<Rightarrow> int \<Rightarrow> (nat \<times> nat list) list \<Rightarrow> nat list \<Rightarrow> py_error + nat list" where
  "satisfied_rules_loop s x target_class [] matched = Inr matched"
| "satisfied_rules_loop s x target_class ((idx, clause) # rest) matched =
     (if idx < length (rule_predictions s)
      then if rule_predictions s ! idx \<noteq> target_class
           then satisfied_rules_loop s x target_class rest matched
           else (case all_hold s x clause of
                   Inl e \<Rightarrow> Inl e
                 | Inr b \<Rightarrow>
                     satisfied_rules_loop s x target_class rest
                       (if b then matched @ [idx] else matched))
      else Inl IndexError)"

definition satisfied_rules :: "('v::ord) explainer \<Rightarrow> 'v list \<Rightarrow> int \<Rightarrow> py_error + nat list" where
  "satisfied_rules s x target_class =
     satisfied_rules_loop s x target_class (enumerate 0 (rule_clauses s)) []"

text \<open>\<^verbatim>\<open>_satisfied_clauses_for_instance\<close>: the same loop, collecting the clauses themselves.\<close>

fun satisfied_clauses_loop ::
  "('v::ord) explainer \<Rightarrow> 'v list \<Rightarrow> int \<Rightarrow> (nat \<times> nat list) list \<Rightarrow> nat list list
     \<Rightarrow> py_error + nat list list" where
  "satisfied_clauses_loop s x target_class [] matched_clauses = Inr matched_clauses"
| "satisfied_clauses_loop s x target_class ((i, clause) # rest) matched_clauses =
     (if i < length (rule_predictions s)
      then if rule_predictions s ! i \<noteq> target_class
           then satisfied_clauses_loop s x target_class rest matched_clauses
           else (case all_hold s x clause of
                   Inl e \<Rightarrow> Inl e
                 | Inr b \<Rightarrow>
                     satisfied_clauses_loop s x target_class rest
                       (if b then matched_clauses @ [clause] else matched_clauses))
      else Inl IndexError)"

definition satisfied_clauses_for_instance ::
  "('v::ord) explainer \<Rightarrow> 'v list \<Rightarrow> int \<Rightarrow> py_error + nat list list" where
  "satisfied_clauses_for_instance s x target_class =
     satisfied_clauses_loop s x target_class (enumerate 0 (rule_clauses s)) []"

section \<open>Hitting sets\<close>

text \<open>A literal list hits a clause list when it shares a literal with every clause.\<close>

definition hits :: "nat list \<Rightarrow> nat list list \<Rightarrow> bool" where
  "hits S clauses = list_all (\<lambda>c. list_ex (\<lambda>l. l \<in> set c) S) clauses"

text \<open>
  Modelled from the spec: the solver class \<^verbatim>\<open>Hitman\<close> of the third-party package
  \<^verbatim>\<open>pysat.examples.hitman\<close>, which the repository imports and does not contain. After
  \<^verbatim>\<open>h.hit(clause)\<close> for every clause, \<^verbatim>\<open>h.get()\<close> is "one minimal hitting set over the clauses
  ... a smallest set of literals intersecting every supplied clause": here the first
  shortest sublist of the clauses' literals that hits every clause, and \<open>None\<close> (Python's
  \<^verbatim>\<open>None\<close>) when no set of literals does, which is the case exactly when a clause is empty.
\<close>

definition hitman_get :: "nat list list \<Rightarrow> nat list option" where
  "hitman_get clauses =
     (let universe = remdups (concat clauses);
          candidates = filter (\<lambda>S. hits S clauses) (subseqs universe)
      in if candidates = [] then None else Some (arg_min_list length candidates))"

text \<open>
  Modelled from the spec: \<^verbatim>\<open>Hitman.enumerate()\<close> of the same package, "the full family of
  inclusion-minimal hitting sets", shortest first.
\<close>

definition hitman_enumerate :: "nat list list \<Rightarrow> nat list list" where
  "hitman_enumerate clauses =
     (let universe = remdups (concat clauses);
          candidates = filter (\<lambda>S. hits S clauses) (subseqs universe)
      in sort_key length
           (filter (\<lambda>S. \<not> list_ex (\<lambda>T. set T \<subset> set S) candidates) candidates))"

section \<open>Explaining one instance\<close>

text \<open>\<^verbatim>\<open>_compute_axp\<close>: \<^verbatim>\<open>self.rule_clauses[ridx]\<close> raises IndexError past the end of the list.\<close>

definition compute_axp :: "'v explainer \<Rightarrow> nat list \<Rightarrow> py_error + nat list option" where
  "compute_axp s rule_ids =
     (if list_all (\<lambda>ridx. ridx < length (rule_clauses s)) rule_ids
      then Inr (hitman_get (map (\<lambda>ridx. rule_clauses s ! ridx) rule_ids))
      else Inl IndexError)"

definition enumerate_axps :: "nat list list \<Rightarrow> nat list list" where
  "enumerate_axps clauses = hitman_enumerate clauses"

text \<open>\<^verbatim>\<open>explain_literals\<close>; \<open>Inr None\<close> is the value \<^verbatim>\<open>None\<close> that \<^verbatim>\<open>h.get()\<close> may return.\<close>

definition explain_literals ::
  "('v::ord) explainer \<Rightarrow> 'v list \<Rightarrow> int \<Rightarrow> py_error + nat list option" where
  "explain_literals s x predicted_class =
     (case satisfied_rules s x predicted_class of
        Inl e \<Rightarrow> Inl e
      | Inr matched \<Rightarrow> if matched = [] then Inr (Some []) else compute_axp s matched)"

text \<open>
  \<^verbatim>\<open>_literal_to_text\<close>. How Python prints the threshold inside the f-string is the parameter
  \<open>fmt\<close>.
\<close>

definition literal_to_text :: "('v \<Rightarrow> string) \<Rightarrow> 'v explainer \<Rightarrow> nat \<Rightarrow> py_error + string" where
  "literal_to_text fmt s lit =
     (case id_condition_map s lit of
        None \<Rightarrow> Inl KeyError
      | Some (feat_idx, thresh, direction) \<Rightarrow>
          (case feature_names s feat_idx of
             None \<Rightarrow> Inl KeyError
           | Some feat \<Rightarrow>
               (let op = (if direction = 0 then ''<='' else ''>'')
                in Inr (feat @ '' '' @ op @ '' '' @ fmt thresh))))"

text \<open>A list comprehension whose element expression may raise: the first raise ends it.\<close>

fun map_err :: "('a \<Rightarrow> py_error + 'b) \<Rightarrow> 'a list \<Rightarrow> py_error + 'b list" where
  "map_err f [] = Inr []"
| "map_err f (a # as) =
     (case f a of
        Inl e \<Rightarrow> Inl e
      | Inr b \<Rightarrow> (case map_err f as of Inl e \<Rightarrow> Inl e | Inr bs \<Rightarrow> Inr (b # bs)))"

text \<open>
  \<^verbatim>\<open>explain_instance\<close>; \<open>predicted_class = None\<close> is the default of the keyword argument.
  Iterating over \<^verbatim>\<open>None\<close> is a TypeError.
\<close>

definition explain_instance ::
  "('v \<Rightarrow> string) \<Rightarrow> ('v::ord) explainer \<Rightarrow> 'v list \<Rightarrow> int option \<Rightarrow> py_error + string list" where
  "explain_instance fmt s x predicted_class =
     (case predicted_class of
        None \<Rightarrow> Inl (ValueError MustProvidePredictedClass)
      | Some pc \<Rightarrow>
          (case explain_literals s x pc of
             Inl e \<Rightarrow> Inl e
           | Inr None \<Rightarrow> Inl TypeError
           | Inr (Some literals) \<Rightarrow> map_err (literal_to_text fmt s) literals))"

text \<open>
  \<^verbatim>\<open>explain_dataset\<close>, with \<open>X\<close> as the rows of the array; a result is the triple
  (\<^verbatim>\<open>"index"\<close>, \<^verbatim>\<open>"predicted_class"\<close>, \<^verbatim>\<open>"axp"\<close>).
\<close>

fun explain_dataset_loop ::
  "('v \<Rightarrow> string) \<Rightarrow> ('v::ord) explainer \<Rightarrow> (nat \<times> 'v list \<times> int) list
     \<Rightarrow> (nat \<times> int \<times> string list) list \<Rightarrow> py_error + (nat \<times> int \<times> string list) list" where
  "explain_dataset_loop fmt s [] results = Inr results"
| "explain_dataset_loop fmt s ((i, x, yhat) # rest) results =
     (case explain_instance fmt s x (Some yhat) of
        Inl e \<Rightarrow> Inl e
      | Inr axp \<Rightarrow> explain_dataset_loop fmt s rest (results @ [(i, yhat, axp)]))"

definition explain_dataset ::
  "('v \<Rightarrow> string) \<Rightarrow> ('v::ord) explainer \<Rightarrow> 'v list list \<Rightarrow> int list option
     \<Rightarrow> py_error + (nat \<times> int \<times> string list) list" where
  "explain_dataset fmt s X predictions =
     (case predictions of
        None \<Rightarrow> Inl (ValueError MustProvidePredictions)
      | Some preds \<Rightarrow> explain_dataset_loop fmt s (enumerate 0 (zip X preds)) [])"

section \<open>Batch explanation\<close>

text \<open>An element of the batch result: the dict with keys \<^verbatim>\<open>"instance"\<close> and \<^verbatim>\<open>"axp"\<close>.\<close>

record axp_entry =
  instance_id :: nat
  axp :: "string list"

text \<open>
  The inner loop of \<^verbatim>\<open>CatBoostSymbolicExplainer._batch_compute_axps\<close> over the enumerated
  hitting sets of one instance. The key \<^verbatim>\<open>str(sorted(axp_readable))\<close> is the sorted list
  itself here: two lists of strings print alike exactly when they are equal.
\<close>

fun dedup_loop ::
  "('v \<Rightarrow> string) \<Rightarrow> 'v explainer \<Rightarrow> nat \<Rightarrow> nat list list \<Rightarrow> string list set
     \<Rightarrow> axp_entry list \<Rightarrow> py_error + axp_entry list" where
  "dedup_loop fmt s i [] seen results = Inr results"
| "dedup_loop fmt s i (axp_literals # rest) seen results =
     (case map_err (literal_to_text fmt s) axp_literals of
        Inl e \<Rightarrow> Inl e
      | Inr axp_readable \<Rightarrow>
          (let axp_str = sort axp_readable
           in if axp_str \<in> seen then dedup_loop fmt s i rest seen results
              else dedup_loop fmt s i rest (insert axp_str seen)
                     (results @ [\<lparr> instance_id = i, axp = axp_readable \<rparr>])))"

text \<open>
  The outer loop over \<^verbatim>\<open>enumerate(X)\<close>: an instance with no satisfied clause is skipped by
  \<^verbatim>\<open>if not clauses: continue\<close>.
\<close>

fun batch_loop ::
  "('v \<Rightarrow> string) \<Rightarrow> ('v::ord) explainer \<Rightarrow> int \<Rightarrow> (nat \<times> 'v list) list \<Rightarrow> axp_entry list
     \<Rightarrow> py_error + axp_entry list" where
  "batch_loop fmt s target_class [] results = Inr results"
| "batch_loop fmt s target_class ((i, x) # rest) results =
     (case satisfied_clauses_for_instance s x target_class of
        Inl e \<Rightarrow> Inl e
      | Inr clauses \<Rightarrow>
          if clauses = [] then batch_loop fmt s target_class rest results
          else (case dedup_loop fmt s i (enumerate_axps clauses) {} results of
                  Inl e \<Rightarrow> Inl e
                | Inr results' \<Rightarrow> batch_loop fmt s target_class rest results'))"

definition batch_compute_axps ::
  "('v \<Rightarrow> string) \<Rightarrow> ('v::ord) explainer \<Rightarrow> 'v list list \<Rightarrow> int \<Rightarrow> py_error + axp_entry list" where
  "batch_compute_axps fmt s X target_class = batch_loop fmt s target_class (enumerate 0 X) []"

section \<open>Feature attribution\<close>

text \<open>
  \<^verbatim>\<open>cond.split()[0]\<close>: the first run of characters that are not whitespace, an IndexError when
  there is none. A \<open>char\<close> is a code point below 256, and whitespace is what \<^verbatim>\<open>str.split()\<close>
  splits at among them.
\<close>

definition py_isspace :: "char \<Rightarrow> bool" where
  "py_isspace c = ((of_char c :: nat) \<in> {9, 10, 11, 12, 13, 28, 29, 30, 31, 32, 133, 160})"

definition first_token :: "string \<Rightarrow> py_error + string" where
  "first_token cond =
     (let rest = dropWhile py_isspace cond
      in if rest = [] then Inl IndexError else Inr (takeWhile (\<lambda>c. \<not> py_isspace c) rest))"

text \<open>Python's \<^verbatim>\<open>/\<close> on two counts, as an exact fraction.\<close>

definition true_div :: "nat \<Rightarrow> nat \<Rightarrow> py_error + rat" where
  "true_div a b = (if b = 0 then Inl ZeroDivisionError else Inr (of_nat a / of_nat b))"

subsection \<open>The aggregator of \<^verbatim>\<open>CatBoostSymbolicExplainer\<close>\<close>

text \<open>\<^verbatim>\<open>instance_groups[axp["instance"]].append(axp["axp"])\<close> on a dict that keeps insertion order.\<close>

fun group_append ::
  "(nat \<times> string list list) list \<Rightarrow> nat \<Rightarrow> string list \<Rightarrow> (nat \<times> string list list) list" where
  "group_append [] k v = [(k, [v])]"
| "group_append ((k', vs) # rest) k v =
     (if k' = k then (k', vs @ [v]) # rest else (k', vs) # group_append rest k v)"

text \<open>\<^verbatim>\<open>support_counter[f] += 1\<close> on a \<^verbatim>\<open>Counter\<close>, and reading it.\<close>

fun counter_inc :: "(string \<times> nat) list \<Rightarrow> string \<Rightarrow> (string \<times> nat) list" where
  "counter_inc [] f = [(f, 1)]"
| "counter_inc ((g, n) # rest) f =
     (if g = f then (g, n + 1) # rest else (g, n) # counter_inc rest f)"

definition counter_get :: "(string \<times> nat) list \<Rightarrow> string \<Rightarrow> nat" where
  "counter_get c f = (case map_of c f of None \<Rightarrow> 0 | Some n \<Rightarrow> n)"

text \<open>
  The trackers that the claims are about. \<^verbatim>\<open>specificity_map\<close>, \<^verbatim>\<open>position_map\<close> and
  \<^verbatim>\<open>stability_map\<close> feed \<^verbatim>\<open>np.mean\<close> and \<^verbatim>\<open>np.std\<close> only, do not raise and do not touch the
  other trackers; they are left out, with the four columns computed from them.
\<close>

record trackers =
  essentiality :: "string \<Rightarrow> nat"
  contrastiveness :: "string \<Rightarrow> nat"
  support_counter :: "(string \<times> nat) list"
  coverage_map :: "string \<Rightarrow> nat set"

definition init_trackers :: trackers where
  "init_trackers =
     \<lparr> essentiality = (\<lambda>_. 0), contrastiveness = (\<lambda>_. 0), support_counter = [],
       coverage_map = (\<lambda>_. {}) \<rparr>"

text \<open>The body of \<^verbatim>\<open>for f in unique_features\<close>.\<close>

definition update_feature :: "nat \<Rightarrow> string set list \<Rightarrow> string \<Rightarrow> trackers \<Rightarrow> trackers" where
  "update_feature instance_no feature_sets f tr =
     (let tr1 = (if list_ex (\<lambda>fs. f \<notin> fs) feature_sets
                 then tr\<lparr> contrastiveness := (contrastiveness tr)(f := contrastiveness tr f + 1) \<rparr>
                 else tr);
          tr2 = tr1\<lparr> support_counter := counter_inc (support_counter tr1) f \<rparr>
      in tr2\<lparr> coverage_map := (coverage_map tr2)(f := insert instance_no (coverage_map tr2 f)) \<rparr>)"

text \<open>
  One round of \<^verbatim>\<open>for instance_id, axp_list in instance_groups.items()\<close>. Every
  \<^verbatim>\<open>cond.split()[0]\<close> of the round is evaluated first by the comprehension for
  \<^verbatim>\<open>all_features\<close>, explanation by explanation, so that is where an IndexError comes from;
  the later comprehensions split the same strings again. The two Python sets are iterated in
  the order of first occurrence.
\<close>

definition process_instance :: "trackers \<Rightarrow> nat \<times> string list list \<Rightarrow> py_error + trackers" where
  "process_instance tr grp =
     (case grp of (instance_no, axp_list) \<Rightarrow>
        (case map_err (map_err first_token) axp_list of
           Inl e \<Rightarrow> Inl e
         | Inr features_per_axp \<Rightarrow>
             (let all_features = concat features_per_axp;
                  unique_features = remdups all_features;
                  feature_sets = map set features_per_axp;
                  essential_feats =
                    (if feature_sets = [] then []
                     else filter (\<lambda>f. list_all (\<lambda>fs. f \<in> fs) feature_sets) unique_features);
                  tr1 = fold (\<lambda>f t. t\<lparr> essentiality := (essentiality t)(f := essentiality t f + 1) \<rparr>)
                          essential_feats tr
              in Inr (fold (update_feature instance_no feature_sets) unique_features tr1))))"

fun process_groups :: "trackers \<Rightarrow> (nat \<times> string list list) list \<Rightarrow> py_error + trackers" where
  "process_groups tr [] = Inr tr"
| "process_groups tr (grp # rest) =
     (case process_instance tr grp of Inl e \<Rightarrow> Inl e | Inr tr' \<Rightarrow> process_groups tr' rest)"

text \<open>A row of the metrics table.\<close>

record feature_metrics =
  feature :: string
  support :: nat
  coverage :: nat
  essentiality_ratio :: rat
  contrastive_instances :: nat
  relative_importance :: rat

definition metrics_row :: "trackers \<Rightarrow> nat \<Rightarrow> string \<Rightarrow> py_error + feature_metrics" where
  "metrics_row tr instance_count f =
     (case true_div (counter_get (support_counter tr) f) (sum_list (map snd (support_counter tr))) of
        Inl e \<Rightarrow> Inl e
      | Inr importance \<Rightarrow>
          Inr \<lparr> feature = f,
                support = counter_get (support_counter tr) f,
                coverage = card (coverage_map tr f),
                essentiality_ratio =
                  (if instance_count > 0 then of_nat (essentiality tr f) / of_nat instance_count
                   else 0),
                contrastive_instances = contrastiveness tr f,
                relative_importance = importance \<rparr>)"

text \<open>
  \<^verbatim>\<open>CatBoostSymbolicExplainer._compute_feature_metrics\<close>. The rows come in the order of the
  counter's keys; Python iterates a set of them, in no fixed order.
\<close>

definition compute_feature_metrics :: "axp_entry list \<Rightarrow> py_error + feature_metrics list" where
  "compute_feature_metrics axps =
     (let instance_groups = fold (\<lambda>a g. group_append g (instance_id a) (axp a)) axps [];
          instance_count = length instance_groups
      in case process_groups init_trackers instance_groups of
           Inl e \<Rightarrow> Inl e
         | Inr tr \<Rightarrow> map_err (metrics_row tr instance_count) (map fst (support_counter tr)))"

subsection \<open>The aggregator of \<^verbatim>\<open>CatBoostAXPExplainer\<close>\<close>

text \<open>An element of that class's batch result, and a row of its metrics.\<close>

record axp_explanation =
  instance_idx :: nat
  conditions :: "string list"
  literals :: "nat list"

record feature_stat =
  stat_feature :: string
  stat_support :: nat
  stat_coverage :: rat
  stat_conditions :: "string list"

text \<open>\<^verbatim>\<open>feature_stats\<close>: feature to (\<^verbatim>\<open>count\<close>, \<^verbatim>\<open>instances\<close>, \<^verbatim>\<open>conditions\<close>), in insertion order.\<close>

fun stats_update ::
  "(string \<times> nat \<times> nat set \<times> string list) list \<Rightarrow> string \<Rightarrow> nat \<Rightarrow> string
     \<Rightarrow> (string \<times> nat \<times> nat set \<times> string list) list" where
  "stats_update [] f i c = [(f, 1, {i}, [c])]"
| "stats_update ((g, n, ins, cs) # rest) f i c =
     (if g = f then (g, n + 1, insert i ins, cs @ [c]) # rest
      else (g, n, ins, cs) # stats_update rest f i c)"

fun conditions_loop ::
  "(string \<times> nat \<times> nat set \<times> string list) list \<Rightarrow> nat \<Rightarrow> string list
     \<Rightarrow> py_error + (string \<times> nat \<times> nat set \<times> string list) list" where
  "conditions_loop stats i [] = Inr stats"
| "conditions_loop stats i (condition # rest) =
     (case first_token condition of
        Inl e \<Rightarrow> Inl e
      | Inr f \<Rightarrow> conditions_loop (stats_update stats f i condition) i rest)"

fun feature_stats_loop ::
  "(string \<times> nat \<times> nat set \<times> string list) list \<Rightarrow> axp_explanation list
     \<Rightarrow> py_error + (string \<times> nat \<times> nat set \<times> string list) list" where
  "feature_stats_loop stats [] = Inr stats"
| "feature_stats_loop stats (a # rest) =
     (case conditions_loop stats (instance_idx a) (conditions a) of
        Inl e \<Rightarrow> Inl e
      | Inr stats' \<Rightarrow> feature_stats_loop stats' rest)"

definition stat_row ::
  "nat \<Rightarrow> string \<times> nat \<times> nat set \<times> string list \<Rightarrow> py_error + feature_stat" where
  "stat_row n_axps entry =
     (case entry of (f, n, ins, cs) \<Rightarrow>
        (case true_div (card ins) n_axps of
           Inl e \<Rightarrow> Inl e
         | Inr cov \<Rightarrow>
             Inr \<lparr> stat_feature = f, stat_support = n, stat_coverage = cov,
                   stat_conditions = cs \<rparr>))"

text \<open>\<^verbatim>\<open>CatBoostAXPExplainer._compute_feature_metrics\<close>.\<close>

definition axp_compute_feature_metrics :: "axp_explanation list \<Rightarrow> py_error + feature_stat list" where
  "axp_compute_feature_metrics axps =
     (case feature_stats_loop [] axps of
        Inl e \<Rightarrow> Inl e
      | Inr feature_stats \<Rightarrow> map_err (stat_row (length axps)) feature_stats)"

section \<open>Attribution per class and chunked processing\<close>

text \<open>\<^verbatim>\<open>results[label] = ...\<close> on a dict.\<close>

fun dict_set :: "('k \<times> 'a) list \<Rightarrow> 'k \<Rightarrow> 'a \<Rightarrow> ('k \<times> 'a) list" where
  "dict_set [] k v = [(k, v)]"
| "dict_set ((k', v') # rest) k v =
     (if k' = k then (k', v) # rest else (k', v') # dict_set rest k v)"

text \<open>
  \<^verbatim>\<open>CatBoostSymbolicExplainer.compute_feature_attribution\<close> on an array \<open>X\<close>. The mask
  \<^verbatim>\<open>predictions == label\<close> selects rows of \<open>X\<close>; a mask of another length than \<open>X\<close> is an
  IndexError.
\<close>

fun attribution_loop ::
  "('v \<Rightarrow> string) \<Rightarrow> ('v::ord) explainer \<Rightarrow> 'v list list \<Rightarrow> int list \<Rightarrow> int list
     \<Rightarrow> (int \<times> feature_metrics list) list \<Rightarrow> py_error + (int \<times> feature_metrics list) list" where
  "attribution_loop fmt s X predictions [] results = Inr results"
| "attribution_loop fmt s X predictions (label # labels) results =
     (if length predictions \<noteq> length X then Inl IndexError
      else (let X_class = map fst (filter (\<lambda>(x, p). p = label) (zip X predictions))
            in case batch_compute_axps fmt s X_class label of
                 Inl e \<Rightarrow> Inl e
               | Inr axps \<Rightarrow>
                   (case compute_feature_metrics axps of
                      Inl e \<Rightarrow> Inl e
                    | Inr metrics \<Rightarrow>
                        attribution_loop fmt s X predictions labels
                          (dict_set results label metrics))))"

definition compute_feature_attribution ::
  "('v \<Rightarrow> string) \<Rightarrow> ('v::ord) explainer \<Rightarrow> 'v list list \<Rightarrow> int list \<Rightarrow> int list option
     \<Rightarrow> py_error + (int \<times> feature_metrics list) list" where
  "compute_feature_attribution fmt s X predictions class_labels =
     attribution_loop fmt s X predictions
       (case class_labels of None \<Rightarrow> [0, 1] | Some labels \<Rightarrow> labels) []"

text \<open>
  A call of \<^verbatim>\<open>compute_feature_attribution\<close> as Python binds it: \<^verbatim>\<open>predictions\<close> has no default,
  so a call that does not pass it (\<open>None\<close> here) raises TypeError before the body runs.
\<close>

definition call_compute_feature_attribution ::
  "('v \<Rightarrow> string) \<Rightarrow> ('v::ord) explainer \<Rightarrow> 'v list list \<Rightarrow> int list option \<Rightarrow> int list option
     \<Rightarrow> py_error + (int \<times> feature_metrics list) list" where
  "call_compute_feature_attribution fmt s X predictions class_labels =
     (case predictions of
        None \<Rightarrow> Inl TypeError
      | Some p \<Rightarrow> compute_feature_attribution fmt s X p class_labels)"

text \<open>\<^verbatim>\<open>range(0, n, step)\<close> for a step that is not zero.\<close>

definition py_range0 :: "nat \<Rightarrow> int \<Rightarrow> nat list" where
  "py_range0 n step = (if step < 0 then [] else filter (\<lambda>i. int i mod step = 0) [0..<n])"

text \<open>
  What \<^verbatim>\<open>results[class_label].extend(metrics)\<close> appends when \<^verbatim>\<open>metrics\<close> is the DataFrame that
  \<^verbatim>\<open>compute_feature_attribution\<close> returns for a class: iterating a DataFrame gives its column
  labels, and a frame built from no rows has none.
\<close>

definition frame_columns :: "feature_metrics list \<Rightarrow> string list" where
  "frame_columns metrics =
     (if metrics = [] then []
      else [''feature'', ''support'', ''coverage'', ''specificity'', ''essentiality_ratio'',
            ''contrastive_instances'', ''stability'', ''relative_importance'', ''avg_position'',
            ''position_std''])"

fun dict_extend :: "('k \<times> 'a list) list \<Rightarrow> 'k \<Rightarrow> 'a list \<Rightarrow> ('k \<times> 'a list) list" where
  "dict_extend [] k vs = [(k, vs)]"
| "dict_extend ((k', vs') # rest) k vs =
     (if k' = k then (k', vs' @ vs) # rest else (k', vs') # dict_extend rest k vs)"

text \<open>
  \<^verbatim>\<open>process_large_dataset\<close>: every batch \<^verbatim>\<open>X.iloc[i:i+batch_size]\<close> is handed to
  \<^verbatim>\<open>self.compute_feature_attribution(batch_X)\<close>, a call with one argument.
\<close>

fun process_batches ::
  "('v \<Rightarrow> string) \<Rightarrow> ('v::ord) explainer \<Rightarrow> 'v list list \<Rightarrow> int \<Rightarrow> nat list
     \<Rightarrow> (int \<times> string list) list \<Rightarrow> py_error + (int \<times> string list) list" where
  "process_batches fmt s X batch_size [] results = Inr results"
| "process_batches fmt s X batch_size (i # starts) results =
     (let batch_X = take (nat batch_size) (drop i X)
      in case call_compute_feature_attribution fmt s batch_X None None of
           Inl e \<Rightarrow> Inl e
         | Inr batch_results \<Rightarrow>
             process_batches fmt s X batch_size starts
               (fold (\<lambda>(class_label, metrics) r. dict_extend r class_label (frame_columns metrics))
                  batch_results results))"

definition process_large_dataset ::
  "('v \<Rightarrow> string) \<Rightarrow> ('v::ord) explainer \<Rightarrow> 'v list list \<Rightarrow> int
     \<Rightarrow> py_error + (int \<times> string list) list" where
  "process_large_dataset fmt s X batch_size =
     (if batch_size = 0 then Inl (ValueError RangeStepZero)
      else process_batches fmt s X batch_size (py_range0 (length X) batch_size) [])"

section \<open>Example inputs\<close>

text \<open>
  The ensemble of the specification's scenarios: feature \<open>A\<close> split at 5 in the first tree,
  feature \<open>B\<close> split at 10 in the second, each with class 1 on the right.
\<close>

definition two_tree_json :: "int model_json" where
  "two_tree_json =
     \<lparr> features_info =
         Some (FeaturesInfo (Some [\<lparr> flat_feature_index = Some 0, feature_id = Some ''A'' \<rparr>,
                                   \<lparr> flat_feature_index = Some 1, feature_id = Some ''B'' \<rparr>])),
       oblivious_trees = None,
       non_oblivious_trees =
         Some [Some (Split 0 5 (Leaf (- 1)) (Leaf 1)), Some (Split 1 10 (Leaf (- 1)) (Leaf 1))] \<rparr>"

definition two_tree_explainer :: "int explainer" where
  "two_tree_explainer = fst (fit_from_model_json init_explainer two_tree_json)"

text \<open>
  An ensemble of oblivious trees and one without any tree list, each with its feature
  table; and the oblivious ensemble without the key \<^verbatim>\<open>"features_info"\<close>.
\<close>

definition oblivious_json :: "int model_json" where
  "oblivious_json =
     \<lparr> features_info =
         Some (FeaturesInfo (Some [\<lparr> flat_feature_index = Some 0, feature_id = Some ''A'' \<rparr>])),
       oblivious_trees = Some [ObliviousTree [(0, 5)] [1, - 1]],
       non_oblivious_trees = None \<rparr>"

definition treeless_json :: "int model_json" where
  "treeless_json =
     \<lparr> features_info =
         Some (FeaturesInfo (Some [\<lparr> flat_feature_index = Some 0, feature_id = Some ''A'' \<rparr>])),
       oblivious_trees = None, non_oblivious_trees = None \<rparr>"

definition oblivious_no_features_json :: "int model_json" where
  "oblivious_no_features_json =
     \<lparr> features_info = None,
       oblivious_trees = Some [ObliviousTree [(0, 5)] [1, - 1]],
       non_oblivious_trees = None \<rparr>"

text \<open>An ensemble whose only tree is a single leaf, and its explainer.\<close>

definition leaf_json :: "int model_json" where
  "leaf_json =
     \<lparr> features_info =
         Some (FeaturesInfo (Some [\<lparr> flat_feature_index = Some 0, feature_id = Some ''A'' \<rparr>])),
       oblivious_trees = None,
       non_oblivious_trees = Some [Some (Leaf 1)] \<rparr>"

definition leaf_explainer :: "int explainer" where
  "leaf_explainer = fst (fit_from_model_json init_explainer leaf_json)"

section \<open>The parser's specification\<close>

text \<open>
  The leaves of a tree in depth-first order, left child first, each with the conditions on
  the path from the root (below the prefix \<open>conds\<close>) and its leaf value: what the
  specification says the parser emits one rule for.
\<close>

fun leaf_paths :: "'v node \<Rightarrow> 'v condition list \<Rightarrow> ('v condition list \<times> 'v) list" where
  "leaf_paths (Leaf v) conds = [(conds, v)]"
| "leaf_paths (Split f t l r) conds =
     leaf_paths l (conds @ [(f, t, 0)]) @ leaf_paths r (conds @ [(f, t, 1)])"

definition ensemble_paths :: "'v node list \<Rightarrow> ('v condition list \<times> 'v) list" where
  "ensemble_paths trees = concat (map (\<lambda>tree. leaf_paths tree []) trees)"

text \<open>The depth of every leaf, in the same order, for a root at depth \<open>d\<close>.\<close>

fun leaf_depths :: "'v node \<Rightarrow> nat \<Rightarrow> nat list" where
  "leaf_depths (Leaf v) d = [d]"
| "leaf_depths (Split f t l r) d = leaf_depths l (Suc d) @ leaf_depths r (Suc d)"

text \<open>
  The distinct keys of a list in the order of their first occurrence, after the keys \<open>ks\<close>
  that are known already: the order in which a registry meets new triples.
\<close>

definition add_new :: "'a list \<Rightarrow> 'a \<Rightarrow> 'a list" where
  "add_new ks k = (if k \<in> set ks then ks else ks @ [k])"

definition intern_order :: "'a list \<Rightarrow> 'a list \<Rightarrow> 'a list" where
  "intern_order ks keys = fold (\<lambda>k acc. add_new acc k) keys ks"

text \<open>
  The registry of an explainer holds exactly the distinct keys \<open>ks\<close>, numbered in this order
  from \<open>n0\<close>, in both maps, and the id generator stands after the last of them.
\<close>

definition registry_of :: "nat \<Rightarrow> 'v condition list \<Rightarrow> 'v explainer \<Rightarrow> bool" where
  "registry_of n0 ks s \<longleftrightarrow>
     distinct ks \<and> id_gen s = n0 + length ks
     \<and> (\<forall>k l. condition_id_map s k = Some l \<longleftrightarrow> (\<exists>i < length ks. ks ! i = k \<and> l = n0 + i))
     \<and> (\<forall>l k. id_condition_map s l = Some k \<longleftrightarrow> (\<exists>i < length ks. ks ! i = k \<and> l = n0 + i))"

text \<open>
  Explainer \<open>s'\<close> is \<open>s\<close> after the leaves \<open>ps\<close> were parsed into a registry that held \<open>ks\<close>:
  one clause and one prediction were appended per leaf, and the clause's literals resolve to
  the leaf's path conditions.
\<close>

definition parsed_as ::
  "nat \<Rightarrow> 'v condition list \<Rightarrow> ('v::{zero,ord}) explainer \<Rightarrow> ('v condition list \<times> 'v) list
     \<Rightarrow> 'v explainer \<Rightarrow> bool" where
  "parsed_as n0 ks s ps s' \<longleftrightarrow>
     registry_of n0 (intern_order ks (concat (map fst ps))) s'
     \<and> (\<exists>cls. rule_clauses s' = rule_clauses s @ cls
            \<and> map (map (id_condition_map s')) cls = map (\<lambda>p. map Some (fst p)) ps)
     \<and> rule_predictions s' = rule_predictions s @ map (\<lambda>p. if snd p > 0 then 1 else 0) ps
     \<and> feature_names s' = feature_names s"

text \<open>The two-tree ensemble parsed a second time by the explainer that already parsed it.\<close>

definition reparsed_explainer :: "int explainer" where
  "reparsed_explainer = fst (fit_from_model_json two_tree_explainer two_tree_json)"

text \<open>A way of printing the thresholds of the examples.\<close>

definition example_fmt :: "int \<Rightarrow> string" where
  "example_fmt t = (if t = 5 then ''5'' else if t = 10 then ''10'' else ''t'')"

section \<open>The aggregators' specification\<close>

text \<open>
  A feature appears in an explanation when it is the first token of one of the
  explanation's condition strings, which is how both aggregators read a feature off a
  condition.
\<close>

definition appears_in :: "string \<Rightarrow> string list \<Rightarrow> bool" where
  "appears_in f explanation \<longleftrightarrow> (\<exists>cond \<in> set explanation. first_token cond = Inr f)"

text \<open>The features that appear in some explanation of a group of explanations.\<close>

definition group_features :: "string list list \<Rightarrow> string set" where
  "group_features es = {f. \<exists>e \<in> set es. appears_in f e}"

text \<open>
  The groups \<open>g\<close> are the explanations \<open>axps\<close> grouped by instance: one group per instance
  that has an explanation, holding the explanations of that instance.
\<close>

definition grouped :: "axp_entry list \<Rightarrow> (nat \<times> string list list) list \<Rightarrow> bool" where
  "grouped axps g \<longleftrightarrow>
     distinct (map fst g) \<and> fst ` set g = instance_id ` set axps
     \<and> (\<forall>i es. (i, es) \<in> set g \<longrightarrow> set es = {axp a |a. a \<in> set axps \<and> instance_id a = i})"

text \<open>The \<^verbatim>\<open>instances\<close> set that \<^verbatim>\<open>feature_stats\<close> holds for a feature, empty without an entry.\<close>

fun stat_instances ::
  "(string \<times> nat \<times> nat set \<times> string list) list \<Rightarrow> string \<Rightarrow> nat set" where
  "stat_instances [] g = {}"
| "stat_instances ((g', n, ins, cs) # st) g = (if g' = g then ins else stat_instances st g)"

text \<open>
  Example inputs of the aggregators: instance 0 with two explanations and instance 1 with
  one; two explanation records of the other class's batch result; and one instance with an
  empty explanation.
\<close>

definition example_axps :: "axp_entry list" where
  "example_axps =
     [\<lparr> instance_id = 0, axp = [''A > 5''] \<rparr>,
      \<lparr> instance_id = 0, axp = [''A > 5'', ''B > 10''] \<rparr>,
      \<lparr> instance_id = 1, axp = [''B > 10''] \<rparr>]"

definition example_explanations :: "axp_explanation list" where
  "example_explanations =
     [\<lparr> instance_idx = 0, conditions = [''A > 5''], literals = [2] \<rparr>,
      \<lparr> instance_idx = 1, conditions = [''B > 10''], literals = [4] \<rparr>]"

definition empty_explanation_axps :: "axp_entry list" where
  "empty_explanation_axps = [\<lparr> instance_id = 0, axp = [] \<rparr>]"

section \<open>Rejected ensembles\<close>

lemma feature_names_loop_complete:
  "(\<forall>f \<in> set fs. flat_feature_index f \<noteq> None \<and> feature_id f \<noteq> None)
     \<Longrightarrow> \<exists>names. feature_names_loop fs m = Inr names"
  by (induction fs arbitrary: m) auto

lemma feature_names_loop_incomplete:
  "(\<exists>f \<in> set fs. flat_feature_index f = None \<or> feature_id f = None)
     \<Longrightarrow> feature_names_loop fs m = Inl KeyError"
  by (induction fs arbitrary: m) (auto split: option.splits)

lemma traverse_trees_roots:
  "traverse_trees (map Some roots) s
     = (fold (\<lambda>tree st. traverse_non_oblivious_tree tree [] [] st) roots s, Inr ())"
  by (induction roots arbitrary: s) simp_all

text \<open>
  C7, as amended. For an ensemble description with a complete feature table (the keys
  \<^verbatim>\<open>features_info\<close> and \<^verbatim>\<open>float_features\<close> are there and every entry has its index and its
  name), the key \<^verbatim>\<open>oblivious_trees\<close> makes parsing fail with the ValueError that names the
  oblivious trees, and the absence of both tree keys makes it fail with the ValueError that
  names the missing \<^verbatim>\<open>non_oblivious_trees\<close>. Without a complete feature table parsing fails
  with a KeyError, before either check. In each case the explainer holds no rule afterwards.
\<close>

theorem fit_rejects_oblivious:
  "(features_info mj = Some (FeaturesInfo (Some fs))
      \<and> (\<forall>f \<in> set fs. flat_feature_index f \<noteq> None \<and> feature_id f \<noteq> None)
      \<and> oblivious_trees mj \<noteq> None \<longrightarrow>
      snd (fit_from_model_json s mj) = Inl (ValueError ObliviousTrees)
      \<and> rule_clauses (fst (fit_from_model_json s mj)) = []
      \<and> rule_predictions (fst (fit_from_model_json s mj)) = [])
   \<and> (features_info mj = Some (FeaturesInfo (Some fs))
      \<and> (\<forall>f \<in> set fs. flat_feature_index f \<noteq> None \<and> feature_id f \<noteq> None)
      \<and> oblivious_trees mj = None \<and> non_oblivious_trees mj = None \<longrightarrow>
      snd (fit_from_model_json s mj) = Inl (ValueError MissingNonObliviousTrees)
      \<and> rule_clauses (fst (fit_from_model_json s mj)) = []
      \<and> rule_predictions (fst (fit_from_model_json s mj)) = [])
   \<and> (features_info mj = None \<or> features_info mj = Some (FeaturesInfo None)
      \<or> (features_info mj = Some (FeaturesInfo (Some fs))
          \<and> (\<exists>f \<in> set fs. flat_feature_index f = None \<or> feature_id f = None)) \<longrightarrow>
      snd (fit_from_model_json s mj) = Inl KeyError
      \<and> rule_clauses (fst (fit_from_model_json s mj)) = []
      \<and> rule_predictions (fst (fit_from_model_json s mj)) = [])"
proof (intro conjI impI)
  assume h: "features_info mj = Some (FeaturesInfo (Some fs))
      \<and> (\<forall>f \<in> set fs. flat_feature_index f \<noteq> None \<and> feature_id f \<noteq> None)
      \<and> oblivious_trees mj \<noteq> None"
  then obtain names where "feature_names_loop fs Map.empty = Inr names"
    using feature_names_loop_complete [of fs Map.empty] by blast
  with h have r: "read_feature_names mj = Inr names" by (simp add: read_feature_names_def)
  from r h show "snd (fit_from_model_json s mj) = Inl (ValueError ObliviousTrees)"
    and "rule_clauses (fst (fit_from_model_json s mj)) = []"
    and "rule_predictions (fst (fit_from_model_json s mj)) = []"
    by (simp_all add: fit_from_model_json_def Let_def)
next
  assume h: "features_info mj = Some (FeaturesInfo (Some fs))
      \<and> (\<forall>f \<in> set fs. flat_feature_index f \<noteq> None \<and> feature_id f \<noteq> None)
      \<and> oblivious_trees mj = None \<and> non_oblivious_trees mj = None"
  then obtain names where "feature_names_loop fs Map.empty = Inr names"
    using feature_names_loop_complete [of fs Map.empty] by blast
  with h have r: "read_feature_names mj = Inr names" by (simp add: read_feature_names_def)
  from r h show "snd (fit_from_model_json s mj) = Inl (ValueError MissingNonObliviousTrees)"
    and "rule_clauses (fst (fit_from_model_json s mj)) = []"
    and "rule_predictions (fst (fit_from_model_json s mj)) = []"
    by (simp_all add: fit_from_model_json_def Let_def)
next
  assume h: "features_info mj = None \<or> features_info mj = Some (FeaturesInfo None)
      \<or> (features_info mj = Some (FeaturesInfo (Some fs))
          \<and> (\<exists>f \<in> set fs. flat_feature_index f = None \<or> feature_id f = None))"
  from h have r: "read_feature_names mj = Inl KeyError"
  proof (elim disjE conjE)
    assume "features_info mj = None"
    then show ?thesis by (simp add: read_feature_names_def)
  next
    assume "features_info mj = Some (FeaturesInfo None)"
    then show ?thesis by (simp add: read_feature_names_def)
  next
    assume "features_info mj = Some (FeaturesInfo (Some fs))"
      and "\<exists>f \<in> set fs. flat_feature_index f = None \<or> feature_id f = None"
    with feature_names_loop_incomplete [of fs Map.empty] show ?thesis
      by (simp add: read_feature_names_def)
  qed
  from r show "snd (fit_from_model_json s mj) = Inl KeyError"
    and "rule_clauses (fst (fit_from_model_json s mj)) = []"
    and "rule_predictions (fst (fit_from_model_json s mj)) = []"
    by (simp_all add: fit_from_model_json_def Let_def)
qed

theorem fit_rejects_oblivious_witness:
  "snd (fit_from_model_json init_explainer oblivious_json) = Inl (ValueError ObliviousTrees)
   \<and> rule_clauses (fst (fit_from_model_json init_explainer oblivious_json)) = []
   \<and> snd (fit_from_model_json init_explainer treeless_json)
       = Inl (ValueError MissingNonObliviousTrees)
   \<and> rule_clauses (fst (fit_from_model_json init_explainer treeless_json)) = []
   \<and> snd (fit_from_model_json init_explainer oblivious_no_features_json) = Inl KeyError
   \<and> rule_clauses (fst (fit_from_model_json init_explainer oblivious_no_features_json)) = []"
proof -
  let ?fs = "[\<lparr> flat_feature_index = Some 0, feature_id = Some ''A'' \<rparr>]"
  have a: "features_info oblivious_json = Some (FeaturesInfo (Some ?fs))
      \<and> (\<forall>f \<in> set ?fs. flat_feature_index f \<noteq> None \<and> feature_id f \<noteq> None)
      \<and> oblivious_trees oblivious_json \<noteq> None"
    by (simp add: oblivious_json_def)
  have b: "features_info treeless_json = Some (FeaturesInfo (Some ?fs))
      \<and> (\<forall>f \<in> set ?fs. flat_feature_index f \<noteq> None \<and> feature_id f \<noteq> None)
      \<and> oblivious_trees treeless_json = None \<and> non_oblivious_trees treeless_json = None"
    by (simp add: treeless_json_def)
  have c: "features_info oblivious_no_features_json = None"
    by (simp add: oblivious_no_features_json_def)
  from a fit_rejects_oblivious [of oblivious_json ?fs init_explainer]
  have 1: "snd (fit_from_model_json init_explainer oblivious_json) = Inl (ValueError ObliviousTrees)
      \<and> rule_clauses (fst (fit_from_model_json init_explainer oblivious_json)) = []"
    by blast
  from b fit_rejects_oblivious [of treeless_json ?fs init_explainer]
  have 2: "snd (fit_from_model_json init_explainer treeless_json)
        = Inl (ValueError MissingNonObliviousTrees)
      \<and> rule_clauses (fst (fit_from_model_json init_explainer treeless_json)) = []"
    by blast
  from c fit_rejects_oblivious [of oblivious_no_features_json ?fs init_explainer]
  have 3: "snd (fit_from_model_json init_explainer oblivious_no_features_json) = Inl KeyError
      \<and> rule_clauses (fst (fit_from_model_json init_explainer oblivious_no_features_json)) = []"
    by blast
  from 1 2 3 show ?thesis by blast
qed

text \<open>
  The claim as stated fails for a description that declares oblivious trees and has no
  \<^verbatim>\<open>features_info\<close>: the feature names are read before the check, and the error is the
  KeyError, not the ValueError that names the oblivious trees.
\<close>

theorem fit_oblivious_without_features_counterexample:
  "oblivious_trees oblivious_no_features_json \<noteq> None
   \<and> snd (fit_from_model_json init_explainer oblivious_no_features_json) = Inl KeyError
   \<and> snd (fit_from_model_json init_explainer oblivious_no_features_json)
       \<noteq> Inl (ValueError ObliviousTrees)"
  by (simp add: oblivious_no_features_json_def fit_from_model_json_def read_feature_names_def
        Let_def)

section \<open>The predicted class is required\<close>

text \<open>
  C10. \<^verbatim>\<open>explain_instance\<close> without a predicted class, and \<^verbatim>\<open>explain_dataset\<close> without
  predictions, raise their ValueError whatever the explainer, the instance and the dataset
  are: nothing is matched, solved or guessed before the raise.
\<close>

theorem explain_requires_predicted_class:
  "explain_instance fmt s x None = Inl (ValueError MustProvidePredictedClass)
   \<and> explain_dataset fmt s X None = Inl (ValueError MustProvidePredictions)"
  by (simp add: explain_instance_def explain_dataset_def)

section \<open>The fitted example\<close>

lemma two_tree_explainer_fields:
  "rule_clauses two_tree_explainer = [[1], [2], [3], [4]]"
  "rule_predictions two_tree_explainer = [0, 1, 0, 1]"
  "id_condition_map two_tree_explainer =
     [1 \<mapsto> (0, 5, 0), 2 \<mapsto> (0, 5, 1), 3 \<mapsto> (1, 10, 0), 4 \<mapsto> (1, 10, 1)]"
  "condition_id_map two_tree_explainer =
     [(0, 5, 0) \<mapsto> 1, (0, 5, 1) \<mapsto> 2, (1, 10, 0) \<mapsto> 3, (1, 10, 1) \<mapsto> 4]"
  "feature_names two_tree_explainer = [0 \<mapsto> ''A'', 1 \<mapsto> ''B'']"
  "id_gen two_tree_explainer = 5"
  by (simp_all add: two_tree_explainer_def fit_from_model_json_def two_tree_json_def
        read_feature_names_def init_explainer_def get_condition_literal_def Let_def
        eval_nat_numeral)

lemma leaf_explainer_fields:
  "rule_clauses leaf_explainer = [[]]"
  "rule_predictions leaf_explainer = [1]"
  by (simp_all add: leaf_explainer_def fit_from_model_json_def leaf_json_def
        read_feature_names_def init_explainer_def Let_def)

lemma two_tree_features:
  "read_feature_names two_tree_json = Inr [0 \<mapsto> ''A'', 1 \<mapsto> ''B'']"
  by (simp add: read_feature_names_def two_tree_json_def)

lemma two_tree_satisfied: "satisfied_rules two_tree_explainer [7, 12] 1 = Inr [1, 3]"
  by (simp add: satisfied_rules_def two_tree_explainer_fields enumerate_eq_zip upt_rec
        literal_condition_holds_def)

section \<open>Rule matching\<close>

lemma literal_condition_holds_True_iff:
  "literal_condition_holds s x lit = Inr True \<longleftrightarrow>
     (\<exists>feat thresh dir. id_condition_map s lit = Some (feat, thresh, dir) \<and> feat < length x
        \<and> (if dir = 0 then x ! feat \<le> thresh else x ! feat > thresh))"
  by (auto simp: literal_condition_holds_def Let_def split: option.splits if_splits)

lemma literal_condition_holds_defined:
  "id_condition_map s lit = Some (feat, thresh, dir) \<Longrightarrow> feat < length x
     \<Longrightarrow> \<exists>b. literal_condition_holds s x lit = Inr b"
  by (simp add: literal_condition_holds_def Let_def)

lemma all_hold_True_iff:
  "all_hold s x clause = Inr True \<longleftrightarrow>
     (\<forall>lit \<in> set clause. literal_condition_holds s x lit = Inr True)"
  by (induction clause) (auto split: sum.splits if_splits)

lemma all_hold_defined:
  "(\<forall>lit \<in> set clause. \<exists>b. literal_condition_holds s x lit = Inr b)
     \<Longrightarrow> \<exists>b. all_hold s x clause = Inr b"
  by (induction clause) (auto split: sum.splits)

lemma satisfied_rules_loop_set:
  "satisfied_rules_loop s x tc ps acc = Inr m \<Longrightarrow>
     set m = set acc \<union> {idx. \<exists>clause. (idx, clause) \<in> set ps \<and> rule_predictions s ! idx = tc
                              \<and> all_hold s x clause = Inr True}"
proof (induction ps arbitrary: acc)
  case Nil
  then show ?case by simp
next
  case (Cons p ps)
  obtain idx clause where p: "p = (idx, clause)" by (cases p)
  show ?case
  proof (cases "rule_predictions s ! idx = tc")
    case False
    with Cons.prems p have "satisfied_rules_loop s x tc ps acc = Inr m"
      by (simp split: if_splits)
    from Cons.IH [OF this] False p show ?thesis by auto
  next
    case True
    with Cons.prems p obtain b where b: "all_hold s x clause = Inr b"
      and rest: "satisfied_rules_loop s x tc ps (if b then acc @ [idx] else acc) = Inr m"
      by (auto split: if_splits sum.splits)
    from Cons.IH [OF rest] b True p show ?thesis by (cases b) auto
  qed
qed

lemma satisfied_rules_loop_defined:
  "(\<forall>(idx, clause) \<in> set ps. idx < length (rule_predictions s)
       \<and> (\<exists>b. all_hold s x clause = Inr b))
     \<Longrightarrow> \<exists>m. satisfied_rules_loop s x tc ps acc = Inr m"
  by (induction ps arbitrary: acc) (auto split: sum.splits)

text \<open>
  C2. Whenever \<^verbatim>\<open>_satisfied_rules\<close> returns, a rule index is in the result exactly when it is
  an index of \<^verbatim>\<open>rule_clauses\<close>, the rule's predicted label is the target class, and every
  literal of its clause is registered, names a feature of the instance and compares as its
  direction says: value \<open>\<le>\<close> threshold for direction 0, value \<open>>\<close> threshold otherwise. It
  does return when the prediction list is as long as the clause list and every literal of
  every clause is registered with a feature index inside the instance.
\<close>

theorem satisfied_rules_iff:
  "(length (rule_clauses s) \<le> length (rule_predictions s)
      \<and> (\<forall>clause \<in> set (rule_clauses s). \<forall>lit \<in> set clause.
            \<exists>feat thresh dir. id_condition_map s lit = Some (feat, thresh, dir)
               \<and> feat < length x)
      \<longrightarrow> (\<exists>matched. satisfied_rules s x target_class = Inr matched))
   \<and> (\<forall>matched idx. satisfied_rules s x target_class = Inr matched \<longrightarrow>
        (idx \<in> set matched \<longleftrightarrow>
           idx < length (rule_clauses s)
           \<and> rule_predictions s ! idx = target_class
           \<and> (\<forall>lit \<in> set (rule_clauses s ! idx).
                 \<exists>feat thresh dir. id_condition_map s lit = Some (feat, thresh, dir)
                   \<and> feat < length x
                   \<and> (if dir = 0 then x ! feat \<le> thresh else x ! feat > thresh))))"
proof (intro conjI impI allI)
  assume wf: "length (rule_clauses s) \<le> length (rule_predictions s)
      \<and> (\<forall>clause \<in> set (rule_clauses s). \<forall>lit \<in> set clause.
            \<exists>feat thresh dir. id_condition_map s lit = Some (feat, thresh, dir)
               \<and> feat < length x)"
  have "\<forall>(idx, clause) \<in> set (enumerate 0 (rule_clauses s)).
          idx < length (rule_predictions s) \<and> (\<exists>b. all_hold s x clause = Inr b)"
  proof (clarify, intro conjI)
    fix idx clause
    assume mem: "(idx, clause) \<in> set (enumerate 0 (rule_clauses s))"
    then have i: "idx < length (rule_clauses s)" and c: "clause \<in> set (rule_clauses s)"
      by (auto simp: in_set_enumerate_eq)
    from i wf show "idx < length (rule_predictions s)" by simp
    from c wf have "\<forall>lit \<in> set clause. \<exists>b. literal_condition_holds s x lit = Inr b"
      by (meson literal_condition_holds_defined)
    then show "\<exists>b. all_hold s x clause = Inr b" by (rule all_hold_defined)
  qed
  then show "\<exists>matched. satisfied_rules s x target_class = Inr matched"
    unfolding satisfied_rules_def by (rule satisfied_rules_loop_defined)
next
  fix matched idx
  assume "satisfied_rules s x target_class = Inr matched"
  then have "set matched =
      {idx. \<exists>clause. (idx, clause) \<in> set (enumerate 0 (rule_clauses s))
             \<and> rule_predictions s ! idx = target_class \<and> all_hold s x clause = Inr True}"
    unfolding satisfied_rules_def by (auto dest: satisfied_rules_loop_set)
  then show "idx \<in> set matched \<longleftrightarrow>
           idx < length (rule_clauses s)
           \<and> rule_predictions s ! idx = target_class
           \<and> (\<forall>lit \<in> set (rule_clauses s ! idx).
                 \<exists>feat thresh dir. id_condition_map s lit = Some (feat, thresh, dir)
                   \<and> feat < length x
                   \<and> (if dir = 0 then x ! feat \<le> thresh else x ! feat > thresh))"
    by (auto simp: in_set_enumerate_eq all_hold_True_iff literal_condition_holds_True_iff)
qed

theorem satisfied_rules_iff_witness:
  "satisfied_rules two_tree_explainer [7, 12] 1 = Inr [1, 3]
   \<and> 1 < length (rule_clauses two_tree_explainer)
   \<and> rule_predictions two_tree_explainer ! 1 = 1
   \<and> rule_clauses two_tree_explainer ! 1 = [2]
   \<and> id_condition_map two_tree_explainer 2 = Some (0, 5, 1)
   \<and> \<not> (0 \<in> set [1, 3 :: nat])
   \<and> rule_predictions two_tree_explainer ! 0 \<noteq> 1"
proof -
  note e = two_tree_satisfied
  from satisfied_rules_iff [of two_tree_explainer "[7, 12]" 1] e
  have "\<And>idx. idx \<in> set [1, 3] \<longleftrightarrow>
          idx < length (rule_clauses two_tree_explainer)
          \<and> rule_predictions two_tree_explainer ! idx = 1
          \<and> (\<forall>lit \<in> set (rule_clauses two_tree_explainer ! idx).
                \<exists>feat thresh dir. id_condition_map two_tree_explainer lit = Some (feat, thresh, dir)
                  \<and> feat < length [7, 12 :: int]
                  \<and> (if dir = 0 then [7, 12] ! feat \<le> thresh else [7, 12] ! feat > thresh))"
    by blast
  from this [of 1] this [of 0] e show ?thesis
    by (simp add: two_tree_explainer_fields)
qed

section \<open>Minimal hitting sets\<close>

lemma hits_iff: "hits S clauses \<longleftrightarrow> (\<forall>c \<in> set clauses. set S \<inter> set c \<noteq> {})"
  by (auto simp: hits_def list_all_iff list_ex_iff)

lemma hitman_get_cases:
  "hitman_get clauses = None \<and> (\<forall>S \<in> set (subseqs (remdups (concat clauses))). \<not> hits S clauses)
   \<or> (\<exists>S. hitman_get clauses = Some S \<and> S \<in> set (subseqs (remdups (concat clauses)))
          \<and> hits S clauses
          \<and> (\<forall>S' \<in> set (subseqs (remdups (concat clauses))). hits S' clauses \<longrightarrow> length S \<le> length S'))"
proof -
  define cands where "cands = filter (\<lambda>S. hits S clauses) (subseqs (remdups (concat clauses)))"
  show ?thesis
  proof (cases "cands = []")
    case True
    then have "hitman_get clauses = None" by (simp add: hitman_get_def cands_def Let_def)
    moreover from True have "\<forall>S \<in> set (subseqs (remdups (concat clauses))). \<not> hits S clauses"
      by (auto simp: cands_def filter_empty_conv)
    ultimately show ?thesis by blast
  next
    case False
    let ?S = "arg_min_list length cands"
    from False have g: "hitman_get clauses = Some ?S"
      by (simp add: hitman_get_def cands_def Let_def)
    from False have "?S \<in> set cands" by (rule arg_min_list_in)
    then have m: "?S \<in> set (subseqs (remdups (concat clauses)))" and h: "hits ?S clauses"
      by (auto simp: cands_def)
    have "\<forall>S' \<in> set cands. length ?S \<le> length S'"
      using False f_arg_min_list_f [of cands length] by simp
    then have "\<forall>S' \<in> set (subseqs (remdups (concat clauses))). hits S' clauses \<longrightarrow> length ?S \<le> length S'"
      by (simp add: cands_def)
    with g m h show ?thesis by blast
  qed
qed

lemma universe_hits:
  assumes "\<forall>c \<in> set clauses. c \<noteq> []"
  shows "hits (remdups (concat clauses)) clauses"
  unfolding hits_iff
proof
  fix c assume c: "c \<in> set clauses"
  with assms obtain l where "l \<in> set c" by (cases c) auto
  with c show "set (remdups (concat clauses)) \<inter> set c \<noteq> {}" by auto
qed

lemma hitman_get_Some:
  assumes "\<forall>c \<in> set clauses. c \<noteq> []"
  shows "\<exists>S. hitman_get clauses = Some S"
proof -
  have "remdups (concat clauses) \<in> set (subseqs (remdups (concat clauses)))"
    by (simp add: set_subseqs_eq)
  with universe_hits [OF assms] hitman_get_cases [of clauses] show ?thesis by blast
qed

lemma hitman_get_None_iff: "hitman_get clauses = None \<longleftrightarrow> [] \<in> set clauses"
proof
  assume "hitman_get clauses = None"
  with hitman_get_Some [of clauses] show "[] \<in> set clauses" by fastforce
next
  assume "[] \<in> set clauses"
  then have "\<And>S. \<not> hits S clauses" by (force simp: hits_iff)
  with hitman_get_cases [of clauses] show "hitman_get clauses = None" by blast
qed

lemma hitman_get_hits: "hitman_get clauses = Some S \<Longrightarrow> hits S clauses"
  using hitman_get_cases [of clauses] by auto

lemma hitman_get_minimal:
  assumes g: "hitman_get clauses = Some S" and T: "T \<subset> set S"
  shows "\<exists>c \<in> set clauses. T \<inter> set c = {}"
proof (rule ccontr)
  assume "\<not> (\<exists>c \<in> set clauses. T \<inter> set c = {})"
  then have hitsT: "\<forall>c \<in> set clauses. T \<inter> set c \<noteq> {}" by blast
  let ?U = "remdups (concat clauses)"
  from g hitman_get_cases [of clauses]
  have S: "S \<in> set (subseqs ?U)"
    and least: "\<forall>S' \<in> set (subseqs ?U). hits S' clauses \<longrightarrow> length S \<le> length S'"
    by auto
  from S have sub: "subseq S ?U" by (simp add: set_subseqs_eq)
  from S have dS: "distinct S" by (rule subseqs_distinctD) simp
  let ?S' = "filter (\<lambda>l. l \<in> T) S"
  have setS': "set ?S' = T" using T by auto
  have "subseq ?S' S" by simp
  with sub have "subseq ?S' ?U" by (meson subseq_order.trans)
  then have mem: "?S' \<in> set (subseqs ?U)" by (simp add: set_subseqs_eq)
  from hitsT setS' have "hits ?S' clauses" by (simp add: hits_iff)
  with least mem have le: "length S \<le> length ?S'" by blast
  from dS have "length ?S' = card T" using setS' distinct_card [of ?S'] by simp
  moreover from dS have "length S = card (set S)" by (simp add: distinct_card)
  moreover from T have "card T < card (set S)" by (simp add: psubset_card_mono)
  ultimately show False using le by simp
qed

lemma satisfied_rules_in_range:
  "satisfied_rules s x c = Inr matched \<Longrightarrow> i \<in> set matched \<Longrightarrow> i < length (rule_clauses s)"
  unfolding satisfied_rules_def
  by (auto dest!: satisfied_rules_loop_set simp: in_set_enumerate_eq)

text \<open>
  C1, as amended. When at least one rule matches and no matched rule has an empty clause,
  \<^verbatim>\<open>explain_literals\<close> returns a literal list that shares a literal with the clause of every
  matched rule, and no proper subset of its literals does so.
\<close>

theorem explain_literals_minimal_hitting_set:
  assumes m: "satisfied_rules s x c = Inr matched"
    and ne: "matched \<noteq> []"
    and nonempty: "\<forall>i \<in> set matched. rule_clauses s ! i \<noteq> []"
  shows "\<exists>S. explain_literals s x c = Inr (Some S)
           \<and> (\<forall>i \<in> set matched. set S \<inter> set (rule_clauses s ! i) \<noteq> {})
           \<and> (\<forall>T. T \<subset> set S \<longrightarrow> (\<exists>i \<in> set matched. T \<inter> set (rule_clauses s ! i) = {}))"
proof -
  let ?cls = "map (\<lambda>ridx. rule_clauses s ! ridx) matched"
  from m have "list_all (\<lambda>ridx. ridx < length (rule_clauses s)) matched"
    by (auto simp: list_all_iff dest: satisfied_rules_in_range)
  with m ne have e: "explain_literals s x c = Inr (hitman_get ?cls)"
    by (simp add: explain_literals_def compute_axp_def)
  from nonempty have "\<forall>cl \<in> set ?cls. cl \<noteq> []" by simp
  then obtain S where S: "hitman_get ?cls = Some S" using hitman_get_Some by blast
  from hitman_get_hits [OF S]
  have "\<forall>i \<in> set matched. set S \<inter> set (rule_clauses s ! i) \<noteq> {}"
    by (simp add: hits_iff)
  moreover have "\<forall>T. T \<subset> set S \<longrightarrow> (\<exists>i \<in> set matched. T \<inter> set (rule_clauses s ! i) = {})"
    using hitman_get_minimal [OF S] by simp
  ultimately show ?thesis using e S by simp
qed

theorem explain_literals_minimal_hitting_set_witness:
  "satisfied_rules two_tree_explainer [7, 12] 1 = Inr [1, 3]
   \<and> explain_literals two_tree_explainer [7, 12] 1 = Inr (Some [2, 4])
   \<and> set [2, 4] \<inter> set (rule_clauses two_tree_explainer ! 1) \<noteq> {}
   \<and> set [2, 4] \<inter> set (rule_clauses two_tree_explainer ! 3) \<noteq> {}
   \<and> {2} \<inter> set (rule_clauses two_tree_explainer ! 3) = {}
   \<and> {4} \<inter> set (rule_clauses two_tree_explainer ! 1) = {}"
proof -
  note e = two_tree_satisfied
  have ne: "[1, 3 :: nat] \<noteq> []" by simp
  have nonempty: "\<forall>i \<in> set [1, 3]. rule_clauses two_tree_explainer ! i \<noteq> []"
    by (simp add: two_tree_explainer_fields)
  from explain_literals_minimal_hitting_set [OF e ne nonempty]
  obtain S where S: "explain_literals two_tree_explainer [7, 12] 1 = Inr (Some S)"
    and hit: "\<forall>i \<in> set [1, 3]. set S \<inter> set (rule_clauses two_tree_explainer ! i) \<noteq> {}"
    by blast
  from hit have "2 \<in> set S" "4 \<in> set S"
    by (simp_all add: two_tree_explainer_fields)
  have v: "explain_literals two_tree_explainer [7, 12] 1 = Inr (Some [2, 4])"
    by (simp add: explain_literals_def e compute_axp_def two_tree_explainer_fields
          hitman_get_def hits_def Let_def)
  with e hit S show ?thesis
    by (simp add: two_tree_explainer_fields)
qed

text \<open>
  The claim as stated fails for a tree that is a single leaf: its rule has the empty clause,
  matches every instance of the leaf's class, and no literal list intersects it.
\<close>

theorem explain_literals_empty_clause_counterexample:
  "satisfied_rules leaf_explainer [7] 1 = Inr [0]
   \<and> rule_clauses leaf_explainer ! 0 = []
   \<and> explain_literals leaf_explainer [7] 1 = Inr None
   \<and> \<not> (\<exists>S. explain_literals leaf_explainer [7] 1 = Inr (Some S)
            \<and> (\<forall>i \<in> set [0]. set S \<inter> set (rule_clauses leaf_explainer ! i) \<noteq> {}))"
  by (simp add: satisfied_rules_def explain_literals_def compute_axp_def leaf_explainer_fields
        hitman_get_def hits_def Let_def)

section \<open>Registry and parser\<close>

lemma distinct_add_new: "distinct ks \<Longrightarrow> distinct (add_new ks k)"
  by (simp add: add_new_def)

lemma prefix_add_new: "prefix ks (add_new ks k)"
  by (simp add: add_new_def)

lemma intern_order_Cons: "intern_order ks (k # keys) = intern_order (add_new ks k) keys"
  by (simp add: intern_order_def)

lemma intern_order_append: "intern_order ks (xs @ ys) = intern_order (intern_order ks xs) ys"
  by (simp add: intern_order_def)

lemma prefix_intern_order: "prefix ks (intern_order ks keys)"
proof (induction keys arbitrary: ks)
  case Nil
  then show ?case by (simp add: intern_order_def)
next
  case (Cons k keys)
  have "prefix ks (add_new ks k)" by (rule prefix_add_new)
  also have "prefix (add_new ks k) (intern_order (add_new ks k) keys)" by (rule Cons.IH)
  finally show ?case by (simp add: intern_order_Cons)
qed

lemma set_intern_order: "set (intern_order ks keys) = set ks \<union> set keys"
  by (induction keys arbitrary: ks) (auto simp: intern_order_def add_new_def)

lemma registry_of_distinct: "registry_of n0 ks s \<Longrightarrow> distinct ks"
  unfolding registry_of_def by blast

lemma registry_of_id_gen: "registry_of n0 ks s \<Longrightarrow> id_gen s = n0 + length ks"
  unfolding registry_of_def by blast

lemma registry_of_cmap:
  "registry_of n0 ks s \<Longrightarrow>
     condition_id_map s k = Some l \<longleftrightarrow> (\<exists>i < length ks. ks ! i = k \<and> l = n0 + i)"
  unfolding registry_of_def by blast

lemma registry_of_imap:
  "registry_of n0 ks s \<Longrightarrow>
     id_condition_map s l = Some k \<longleftrightarrow> (\<exists>i < length ks. ks ! i = k \<and> l = n0 + i)"
  unfolding registry_of_def by blast

lemma registry_ofI:
  assumes "distinct ks" "id_gen s = n0 + length ks"
    and "\<And>k l. condition_id_map s k = Some l \<longleftrightarrow> (\<exists>i < length ks. ks ! i = k \<and> l = n0 + i)"
    and "\<And>l k. id_condition_map s l = Some k \<longleftrightarrow> (\<exists>i < length ks. ks ! i = k \<and> l = n0 + i)"
  shows "registry_of n0 ks s"
  unfolding registry_of_def using assms by blast

lemma registry_of_mono:
  assumes "registry_of n0 ks s" "registry_of n0 ks' s'" "prefix ks ks'"
    and "id_condition_map s l = Some k"
  shows "id_condition_map s' l = Some k"
proof -
  from assms(4) registry_of_imap [OF assms(1)]
  obtain i where i: "i < length ks" "ks ! i = k" "l = n0 + i" by blast
  from assms(3) i have "i < length ks'" "ks' ! i = k"
    by (auto simp: prefix_def nth_append)
  with i(3) registry_of_imap [OF assms(2)] show ?thesis by blast
qed

lemma get_condition_literal_frame:
  assumes "get_condition_literal k s = (lit, s')"
  shows "rule_clauses s' = rule_clauses s" "rule_predictions s' = rule_predictions s"
    "feature_names s' = feature_names s"
  using assms by (auto simp: get_condition_literal_def Let_def split: option.splits)

lemma get_condition_literal_registry:
  assumes reg: "registry_of n0 ks s" and g: "get_condition_literal k s = (lit, s')"
  shows "registry_of n0 (add_new ks k) s' \<and> id_condition_map s' lit = Some k"
proof (cases "condition_id_map s k")
  case (Some l)
  with registry_of_cmap [OF reg] obtain i where i: "i < length ks" "ks ! i = k" "l = n0 + i"
    by blast
  then have "k \<in> set ks" by (auto simp: in_set_conv_nth)
  moreover from Some g have "lit = l" "s' = s" by (simp_all add: get_condition_literal_def)
  moreover from i registry_of_imap [OF reg] have "id_condition_map s l = Some k" by blast
  ultimately show ?thesis using reg by (simp add: add_new_def)
next
  case None
  have notin: "k \<notin> set ks"
  proof
    assume "k \<in> set ks"
    then obtain i where "i < length ks" "ks ! i = k" by (auto simp: in_set_conv_nth)
    with registry_of_cmap [OF reg, of k "n0 + i"] None show False by auto
  qed
  from None g have s': "s' = s\<lparr> id_gen := id_gen s + 1,
      condition_id_map := (condition_id_map s)(k \<mapsto> id_gen s),
      id_condition_map := (id_condition_map s)(id_gen s \<mapsto> k) \<rparr>"
    and lit: "lit = id_gen s"
    by (auto simp: get_condition_literal_def Let_def)
  note idg = registry_of_id_gen [OF reg]
  have "registry_of n0 (ks @ [k]) s'"
  proof (rule registry_ofI)
    from notin registry_of_distinct [OF reg] show "distinct (ks @ [k])" by simp
    from idg show "id_gen s' = n0 + length (ks @ [k])" by (simp add: s')
  next
    fix k' l
    show "condition_id_map s' k' = Some l \<longleftrightarrow>
            (\<exists>i < length (ks @ [k]). (ks @ [k]) ! i = k' \<and> l = n0 + i)"
    proof (cases "k' = k")
      case True
      have "(\<exists>i < length (ks @ [k]). (ks @ [k]) ! i = k \<and> l = n0 + i) \<longleftrightarrow> l = n0 + length ks"
        using notin by (auto simp: nth_append less_Suc_eq in_set_conv_nth)
      with True idg show ?thesis by (auto simp: s')
    next
      case False
      have "(\<exists>i < length (ks @ [k]). (ks @ [k]) ! i = k' \<and> l = n0 + i)
            \<longleftrightarrow> (\<exists>i < length ks. ks ! i = k' \<and> l = n0 + i)"
        using False by (auto simp: nth_append less_Suc_eq)
      with False registry_of_cmap [OF reg, of k' l] show ?thesis by (simp add: s')
    qed
  next
    fix l k'
    show "id_condition_map s' l = Some k' \<longleftrightarrow>
            (\<exists>i < length (ks @ [k]). (ks @ [k]) ! i = k' \<and> l = n0 + i)"
    proof (cases "l = id_gen s")
      case True
      have "(\<exists>i < length (ks @ [k]). (ks @ [k]) ! i = k' \<and> n0 + length ks = n0 + i) \<longleftrightarrow> k' = k"
        by (auto simp: nth_append)
      with True idg show ?thesis by (auto simp: s')
    next
      case False
      have "(\<exists>i < length (ks @ [k]). (ks @ [k]) ! i = k' \<and> l = n0 + i)
            \<longleftrightarrow> (\<exists>i < length ks. ks ! i = k' \<and> l = n0 + i)"
        using False idg by (auto simp: nth_append less_Suc_eq)
      with False registry_of_imap [OF reg, of l k'] show ?thesis by (simp add: s')
    qed
  qed
  moreover have "id_condition_map s' lit = Some k" by (simp add: s' lit)
  ultimately show ?thesis using notin by (simp add: add_new_def)
qed

lemma registry_of_rules_update [simp]:
  "registry_of n0 ks (s\<lparr> rule_clauses := cs \<rparr>) = registry_of n0 ks s"
  "registry_of n0 ks (s\<lparr> rule_predictions := rp \<rparr>) = registry_of n0 ks s"
  by (simp_all add: registry_of_def)

lemma clause_literals_registry:
  assumes "registry_of n0 ks s" "clause_literals conds s = (lits, s')"
  shows "registry_of n0 (intern_order ks conds) s'
         \<and> map (id_condition_map s') lits = map Some conds
         \<and> rule_clauses s' = rule_clauses s
         \<and> rule_predictions s' = rule_predictions s
         \<and> feature_names s' = feature_names s"
  using assms
proof (induction conds arbitrary: ks s lits s')
  case Nil
  then show ?case by (simp add: intern_order_def)
next
  case (Cons k conds)
  obtain lit s1 where g: "get_condition_literal k s = (lit, s1)"
    by (cases "get_condition_literal k s")
  obtain lits' s2 where c: "clause_literals conds s1 = (lits', s2)"
    by (cases "clause_literals conds s1")
  from Cons.prems(2) g c have eq: "lits = lit # lits'" "s' = s2" by simp_all
  from get_condition_literal_registry [OF Cons.prems(1) g]
  have r1: "registry_of n0 (add_new ks k) s1" and l1: "id_condition_map s1 lit = Some k"
    by simp_all
  from Cons.IH [OF r1 c]
  have r2: "registry_of n0 (intern_order (add_new ks k) conds) s2"
    and m2: "map (id_condition_map s2) lits' = map Some conds"
    and f2: "rule_clauses s2 = rule_clauses s1" "rule_predictions s2 = rule_predictions s1"
      "feature_names s2 = feature_names s1"
    by simp_all
  from registry_of_mono [OF r1 r2 prefix_intern_order l1]
  have "id_condition_map s2 lit = Some k" .
  with r2 m2 f2 get_condition_literal_frame [OF g] eq show ?case
    by (simp add: intern_order_Cons)
qed

lemma resolve_mono:
  assumes "\<And>l k. m l = Some k \<Longrightarrow> m' l = Some k"
    and "map (map m) cls = map (\<lambda>p. map Some (fst p)) ps"
  shows "map (map m') cls = map (\<lambda>p. map Some (fst p)) ps"
  using assms(2)
proof (induction cls arbitrary: ps)
  case Nil
  then show ?case by simp
next
  case (Cons cl cls)
  then obtain p ps' where ps: "ps = p # ps'" by (cases ps) auto
  with Cons.prems have h: "map m cl = map Some (fst p)"
    and t: "map (map m) cls = map (\<lambda>p. map Some (fst p)) ps'" by simp_all
  from h have "map m' cl = map Some (fst p)"
    by (auto simp: list_eq_iff_nth_eq intro: assms(1))
  with Cons.IH [OF t] ps show ?case by simp
qed

lemma parsed_as_trans:
  assumes a: "parsed_as n0 ks s ps1 s1"
    and b: "parsed_as n0 (intern_order ks (concat (map fst ps1))) s1 ps2 s2"
  shows "parsed_as n0 ks s (ps1 @ ps2) s2"
proof -
  let ?ks1 = "intern_order ks (concat (map fst ps1))"
  let ?ks2 = "intern_order ?ks1 (concat (map fst ps2))"
  from a have r1: "registry_of n0 ?ks1 s1" by (simp add: parsed_as_def)
  from b have r2: "registry_of n0 ?ks2 s2" by (simp add: parsed_as_def)
  from a obtain cls1 where c1: "rule_clauses s1 = rule_clauses s @ cls1"
    "map (map (id_condition_map s1)) cls1 = map (\<lambda>p. map Some (fst p)) ps1"
    unfolding parsed_as_def by blast
  from b obtain cls2 where c2: "rule_clauses s2 = rule_clauses s1 @ cls2"
    "map (map (id_condition_map s2)) cls2 = map (\<lambda>p. map Some (fst p)) ps2"
    unfolding parsed_as_def by blast
  have "map (map (id_condition_map s2)) cls1 = map (\<lambda>p. map Some (fst p)) ps1"
    using registry_of_mono [OF r1 r2 prefix_intern_order] c1(2) by (rule resolve_mono)
  with c1 c2 have "rule_clauses s2 = rule_clauses s @ (cls1 @ cls2)
      \<and> map (map (id_condition_map s2)) (cls1 @ cls2) = map (\<lambda>p. map Some (fst p)) (ps1 @ ps2)"
    by simp
  then have "\<exists>cls. rule_clauses s2 = rule_clauses s @ cls
      \<and> map (map (id_condition_map s2)) cls = map (\<lambda>p. map Some (fst p)) (ps1 @ ps2)"
    by blast
  moreover from a b have "rule_predictions s2 =
      rule_predictions s @ map (\<lambda>p. if snd p > 0 then 1 else 0) (ps1 @ ps2)"
    by (simp add: parsed_as_def)
  moreover from a b have "feature_names s2 = feature_names s" by (simp add: parsed_as_def)
  moreover from r2 have "registry_of n0 (intern_order ks (concat (map fst (ps1 @ ps2)))) s2"
    by (simp add: intern_order_append)
  ultimately show ?thesis unfolding parsed_as_def by blast
qed

lemma traverse_parsed_as:
  assumes "registry_of n0 ks s"
  shows "parsed_as n0 ks s (leaf_paths node conds) (traverse_non_oblivious_tree node path conds s)"
  using assms
proof (induction node arbitrary: ks s path conds)
  case (Leaf v)
  obtain clause s1 where c: "clause_literals conds s = (clause, s1)"
    by (cases "clause_literals conds s")
  from clause_literals_registry [OF Leaf.prems c] c show ?case
    by (simp add: parsed_as_def)
next
  case (Split f t l r)
  let ?s1 = "traverse_non_oblivious_tree l (path @ [0]) (conds @ [(f, t, 0)]) s"
  let ?ps1 = "leaf_paths l (conds @ [(f, t, 0)])"
  have a: "parsed_as n0 ks s ?ps1 ?s1" by (rule Split.IH(1) [OF Split.prems])
  then have r1: "registry_of n0 (intern_order ks (concat (map fst ?ps1))) ?s1"
    by (simp add: parsed_as_def)
  from parsed_as_trans [OF a Split.IH(2) [OF r1]] show ?case by (simp add: Let_def)
qed

lemma parsed_as_refl: "registry_of n0 ks s \<Longrightarrow> parsed_as n0 ks s [] s"
  by (simp add: parsed_as_def intern_order_def)

lemma fold_traverse_parsed_as:
  assumes "registry_of n0 ks s"
  shows "parsed_as n0 ks s (ensemble_paths trees)
           (fold (\<lambda>tree st. traverse_non_oblivious_tree tree [] [] st) trees s)"
  using assms
proof (induction trees arbitrary: ks s)
  case Nil
  then show ?case by (simp add: ensemble_paths_def parsed_as_refl)
next
  case (Cons tree trees)
  let ?s1 = "traverse_non_oblivious_tree tree [] [] s"
  have a: "parsed_as n0 ks s (leaf_paths tree []) ?s1"
    by (rule traverse_parsed_as [OF Cons.prems])
  then have r1: "registry_of n0 (intern_order ks (concat (map fst (leaf_paths tree [])))) ?s1"
    by (simp add: parsed_as_def)
  from parsed_as_trans [OF a Cons.IH [OF r1]] show ?case
    by (simp add: ensemble_paths_def)
qed

lemma fit_parsed:
  assumes "read_feature_names mj = Inr names"
    and "oblivious_trees mj = None" "non_oblivious_trees mj = Some (map Some trees)"
  shows "snd (fit_from_model_json s mj) = Inr ()"
    and "registry_of (id_gen s) (intern_order [] (concat (map fst (ensemble_paths trees))))
           (fst (fit_from_model_json s mj))"
    and "map (map (id_condition_map (fst (fit_from_model_json s mj))))
           (rule_clauses (fst (fit_from_model_json s mj)))
         = map (\<lambda>p. map Some (fst p)) (ensemble_paths trees)"
    and "rule_predictions (fst (fit_from_model_json s mj))
         = map (\<lambda>p. if snd p > 0 then 1 else 0) (ensemble_paths trees)"
proof -
  let ?s2 = "s\<lparr> stored_model_json := Some mj, rule_clauses := [], rule_predictions := [],
               condition_id_map := Map.empty, id_condition_map := Map.empty,
               feature_names := names \<rparr>"
  from assms have e: "fit_from_model_json s mj =
      (fold (\<lambda>tree st. traverse_non_oblivious_tree tree [] [] st) trees ?s2, Inr ())"
    by (simp add: fit_from_model_json_def Let_def traverse_trees_roots)
  then show "snd (fit_from_model_json s mj) = Inr ()" by simp
  have "registry_of (id_gen s) [] ?s2" by (rule registry_ofI) simp_all
  from fold_traverse_parsed_as [OF this, of trees]
  have p: "parsed_as (id_gen s) [] ?s2 (ensemble_paths trees) (fst (fit_from_model_json s mj))"
    by (simp add: e)
  then show "registry_of (id_gen s) (intern_order [] (concat (map fst (ensemble_paths trees))))
           (fst (fit_from_model_json s mj))"
    by (simp add: parsed_as_def)
  from p show "map (map (id_condition_map (fst (fit_from_model_json s mj))))
           (rule_clauses (fst (fit_from_model_json s mj)))
         = map (\<lambda>p. map Some (fst p)) (ensemble_paths trees)"
    by (auto simp: parsed_as_def)
  from p show "rule_predictions (fst (fit_from_model_json s mj))
         = map (\<lambda>p. if snd p > 0 then 1 else 0) (ensemble_paths trees)"
    by (simp add: parsed_as_def)
qed

lemma length_leaf_paths: "map (\<lambda>p. length (fst p)) (leaf_paths node conds)
    = leaf_depths node (length conds)"
  by (induction node arbitrary: conds) simp_all

lemma leaf_depths_ge: "x \<in> set (leaf_depths node d) \<Longrightarrow> d \<le> x"
  by (induction node arbitrary: d) (auto dest: Suc_leD)

lemma leaf_depths_root: "d \<in> set (leaf_depths node d) \<longleftrightarrow> (\<exists>v. node = Leaf v)"
  by (cases node) (auto dest: leaf_depths_ge)

lemma depths_ensemble_paths:
  "map (\<lambda>p. length (fst p)) (ensemble_paths trees) = concat (map (\<lambda>tree. leaf_depths tree 0) trees)"
  by (induction trees) (simp_all add: ensemble_paths_def length_leaf_paths)

text \<open>
  C3. For an ensemble with a feature table and non-oblivious trees, parsing succeeds and the rules are, in
  order, the leaves of the trees in depth-first order: the literals of a rule's clause
  resolve, one by one, to the split conditions on the path to its leaf, so the clause is as
  long as the leaf is deep, and an empty clause exists exactly when a tree is a single leaf;
  the rule's label is 1 when the leaf value is above 0 and 0 otherwise.
\<close>

theorem parser_emits_one_rule_per_leaf:
  assumes "read_feature_names mj = Inr names"
    and "oblivious_trees mj = None" and "non_oblivious_trees mj = Some (map Some trees)"
    and "s' = fst (fit_from_model_json s mj)"
  shows "snd (fit_from_model_json s mj) = Inr ()
    \<and> map (map (id_condition_map s')) (rule_clauses s')
        = map (\<lambda>p. map Some (fst p)) (ensemble_paths trees)
    \<and> map length (rule_clauses s') = concat (map (\<lambda>tree. leaf_depths tree 0) trees)
    \<and> rule_predictions s' = map (\<lambda>p. if snd p > 0 then 1 else 0) (ensemble_paths trees)
    \<and> ([] \<in> set (rule_clauses s') \<longleftrightarrow> (\<exists>v. Leaf v \<in> set trees))"
proof -
  note f = fit_parsed [OF assms(1,2,3), of s, folded assms(4)]
  have len: "map length (rule_clauses s') = concat (map (\<lambda>tree. leaf_depths tree 0) trees)"
  proof -
    have "map length (map (map (id_condition_map s')) (rule_clauses s'))
          = map length (map (\<lambda>p. map Some (fst p)) (ensemble_paths trees))"
      by (simp only: f(3))
    then have "map length (rule_clauses s') = map (\<lambda>p. length (fst p)) (ensemble_paths trees)"
      by (simp add: comp_def)
    then show ?thesis by (simp add: depths_ensemble_paths)
  qed
  have "[] \<in> set (rule_clauses s') \<longleftrightarrow> 0 \<in> set (map length (rule_clauses s'))"
    by (auto simp: image_iff)
  also have "\<dots> \<longleftrightarrow> (\<exists>tree \<in> set trees. 0 \<in> set (leaf_depths tree 0))"
    by (simp add: len)
  also have "\<dots> \<longleftrightarrow> (\<exists>v. Leaf v \<in> set trees)"
    by (auto simp: leaf_depths_root)
  finally have "[] \<in> set (rule_clauses s') \<longleftrightarrow> (\<exists>v. Leaf v \<in> set trees)" .
  with f len show ?thesis by simp
qed

lemma two_tree_paths:
  "ensemble_paths [Split 0 5 (Leaf (- 1)) (Leaf 1), Split 1 10 (Leaf (- 1)) (Leaf (1::int))]
     = [([(0, 5, 0)], - 1), ([(0, 5, 1)], 1), ([(1, 10, 0)], - 1), ([(1, 10, 1)], 1)]"
  by (simp add: ensemble_paths_def)

theorem parser_emits_one_rule_per_leaf_witness:
  "snd (fit_from_model_json init_explainer two_tree_json) = Inr ()
   \<and> map (map (id_condition_map two_tree_explainer)) (rule_clauses two_tree_explainer)
       = [[Some (0, 5, 0)], [Some (0, 5, 1)], [Some (1, 10, 0)], [Some (1, 10, 1)]]
   \<and> map length (rule_clauses two_tree_explainer) = [1, 1, 1, 1]
   \<and> rule_predictions two_tree_explainer = [0, 1, 0, 1]
   \<and> [] \<notin> set (rule_clauses two_tree_explainer)"
proof -
  have a: "oblivious_trees two_tree_json = None" by (simp add: two_tree_json_def)
  have b: "non_oblivious_trees two_tree_json
      = Some (map Some [Split 0 5 (Leaf (- 1)) (Leaf 1), Split 1 10 (Leaf (- 1)) (Leaf 1)])"
    by (simp add: two_tree_json_def)
  from parser_emits_one_rule_per_leaf [OF two_tree_features a b two_tree_explainer_def]
  show ?thesis by (simp add: ensemble_paths_def)
qed

text \<open>
  C4, as amended. After a parse, also a re-parse by an explainer that parsed before, the
  registry holds the triples of the parsed trees and no other; the distinct triples, in the
  order the parser first meets them, have the consecutive ids that start at the value of
  the explainer's id generator before the parse, in both maps; the generator, which is 1 in
  a new explainer, is never reset. Interning a triple again returns the same id and changes
  nothing.
\<close>

theorem registry_rebuilt_on_fit:
  assumes "read_feature_names mj = Inr names"
    and "oblivious_trees mj = None" and "non_oblivious_trees mj = Some (map Some trees)"
    and "s' = fst (fit_from_model_json s mj)"
    and "ks = intern_order [] (concat (map fst (ensemble_paths trees)))"
  shows "dom (condition_id_map s') = set (concat (map fst (ensemble_paths trees)))
    \<and> distinct ks
    \<and> (\<forall>i < length ks. condition_id_map s' (ks ! i) = Some (id_gen s + i)
                          \<and> id_condition_map s' (id_gen s + i) = Some (ks ! i))
    \<and> dom (id_condition_map s') = {id_gen s ..< id_gen s + length ks}
    \<and> id_gen s' = id_gen s + length ks
    \<and> id_gen (init_explainer :: 'a explainer) = 1
    \<and> (\<forall>key (s1 :: 'a explainer) lit s2.
          get_condition_literal key s1 = (lit, s2) \<longrightarrow> get_condition_literal key s2 = (lit, s2))"
proof -
  have reg: "registry_of (id_gen s) ks s'"
    using fit_parsed(2) [OF assms(1,2,3), of s] assms(4,5) by simp
  have "dom (condition_id_map s') = set ks"
  proof (rule set_eqI)
    fix k
    have "k \<in> dom (condition_id_map s') \<longleftrightarrow> (\<exists>l. condition_id_map s' k = Some l)"
      by (simp only: dom_def mem_Collect_eq not_None_eq)
    also have "\<dots> \<longleftrightarrow> (\<exists>i < length ks. ks ! i = k)"
      using registry_of_cmap [OF reg, of k] by blast
    also have "\<dots> \<longleftrightarrow> k \<in> set ks"
      by (auto simp: in_set_conv_nth)
    finally show "k \<in> dom (condition_id_map s') \<longleftrightarrow> k \<in> set ks" .
  qed
  then have d: "dom (condition_id_map s') = set (concat (map fst (ensemble_paths trees)))"
    by (simp add: assms(5) set_intern_order)
  have i: "\<forall>i < length ks. condition_id_map s' (ks ! i) = Some (id_gen s + i)
                          \<and> id_condition_map s' (id_gen s + i) = Some (ks ! i)"
    using registry_of_cmap [OF reg] registry_of_imap [OF reg] by blast
  have r: "dom (id_condition_map s') = {id_gen s ..< id_gen s + length ks}"
  proof (rule set_eqI)
    fix l
    have "l \<in> dom (id_condition_map s') \<longleftrightarrow> (\<exists>k. id_condition_map s' l = Some k)"
      by (simp only: dom_def mem_Collect_eq not_None_eq)
    also have "\<dots> \<longleftrightarrow> (\<exists>i < length ks. l = id_gen s + i)"
      using registry_of_imap [OF reg, of l] by blast
    also have "\<dots> \<longleftrightarrow> l \<in> {id_gen s ..< id_gen s + length ks}"
      by (auto intro: exI [of _ "l - id_gen s"])
    finally show "l \<in> dom (id_condition_map s') \<longleftrightarrow> l \<in> {id_gen s ..< id_gen s + length ks}" .
  qed
  have idem: "\<forall>key (s1 :: 'a explainer) lit s2.
          get_condition_literal key s1 = (lit, s2) \<longrightarrow> get_condition_literal key s2 = (lit, s2)"
    by (auto simp: get_condition_literal_def Let_def split: option.splits)
  from d i r idem registry_of_distinct [OF reg] registry_of_id_gen [OF reg]
  show ?thesis by (simp add: init_explainer_def)
qed

lemma two_tree_intern_order:
  "intern_order []
     (concat (map fst (ensemble_paths
        [Split 0 5 (Leaf (- 1)) (Leaf 1), Split 1 10 (Leaf (- 1)) (Leaf (1::int))])))
   = [(0, 5, 0), (0, 5, 1), (1, 10, 0), (1, 10, 1)]"
  by (simp add: ensemble_paths_def intern_order_def add_new_def)

theorem registry_rebuilt_on_fit_witness:
  "condition_id_map reparsed_explainer (0, 5, 0) = Some 5
   \<and> id_condition_map reparsed_explainer 5 = Some (0, 5, 0)
   \<and> condition_id_map reparsed_explainer (1, 10, 1) = Some 8
   \<and> id_condition_map reparsed_explainer 8 = Some (1, 10, 1)
   \<and> dom (condition_id_map reparsed_explainer) = {(0, 5, 0), (0, 5, 1), (1, 10, 0), (1, 10, 1)}
   \<and> dom (id_condition_map reparsed_explainer) = {5 ..< 9}
   \<and> id_gen reparsed_explainer = 9"
proof -
  let ?trees = "[Split 0 5 (Leaf (- 1)) (Leaf 1), Split 1 10 (Leaf (- 1)) (Leaf (1::int))]"
  let ?ks = "[(0, 5, 0), (0, 5, 1), (1, 10, 0), (1, 10, 1 :: nat)] :: int condition list"
  have a: "oblivious_trees two_tree_json = None" by (simp add: two_tree_json_def)
  have b: "non_oblivious_trees two_tree_json = Some (map Some ?trees)"
    by (simp add: two_tree_json_def)
  have ks: "?ks = intern_order [] (concat (map fst (ensemble_paths ?trees)))"
    by (simp only: two_tree_intern_order)
  note t = registry_rebuilt_on_fit [OF two_tree_features a b reparsed_explainer_def ks]
  from t have d: "dom (condition_id_map reparsed_explainer)
      = set (concat (map fst (ensemble_paths ?trees)))"
    and r: "dom (id_condition_map reparsed_explainer)
      = {id_gen two_tree_explainer ..< id_gen two_tree_explainer + length ?ks}"
    and g: "id_gen reparsed_explainer = id_gen two_tree_explainer + length ?ks"
    and i: "\<forall>i < length ?ks.
        condition_id_map reparsed_explainer (?ks ! i) = Some (id_gen two_tree_explainer + i)
        \<and> id_condition_map reparsed_explainer (id_gen two_tree_explainer + i) = Some (?ks ! i)"
    by blast+
  from i [rule_format, of 0] i [rule_format, of 3] d r g show ?thesis
    by (simp add: two_tree_explainer_fields ensemble_paths_def insert_commute)
qed

text \<open>
  The claim as stated fails at a re-parse: the second parse of the two-tree ensemble gives
  its first triple the id 5, and no triple the id 1.
\<close>

theorem reparse_ids_counterexample:
  "condition_id_map reparsed_explainer (0, 5, 0) = Some 5
   \<and> \<not> (\<exists>key. condition_id_map reparsed_explainer key = Some 1)
   \<and> 1 \<notin> dom (id_condition_map reparsed_explainer)"
proof -
  let ?trees = "[Split 0 5 (Leaf (- 1)) (Leaf 1), Split 1 10 (Leaf (- 1)) (Leaf (1::int))]"
  let ?ks = "[(0, 5, 0), (0, 5, 1), (1, 10, 0), (1, 10, 1 :: nat)] :: int condition list"
  have a: "oblivious_trees two_tree_json = None" by (simp add: two_tree_json_def)
  have b: "non_oblivious_trees two_tree_json = Some (map Some ?trees)"
    by (simp add: two_tree_json_def)
  from fit_parsed(2) [OF two_tree_features a b, of two_tree_explainer]
  have reg: "registry_of 5 ?ks reparsed_explainer"
    by (simp only: two_tree_intern_order reparsed_explainer_def two_tree_explainer_fields)
  from registry_of_cmap [OF reg, of "(0, 5, 0)" 5]
  have "condition_id_map reparsed_explainer (0, 5, 0) = Some 5" by auto
  moreover have "\<not> (\<exists>key. condition_id_map reparsed_explainer key = Some 1)"
    using registry_of_cmap [OF reg] by auto
  moreover have "1 \<notin> dom (id_condition_map reparsed_explainer)"
  proof
    assume "1 \<in> dom (id_condition_map reparsed_explainer)"
    then obtain k where "id_condition_map reparsed_explainer 1 = Some k"
      by (auto simp only: dom_def mem_Collect_eq not_None_eq)
    with registry_of_imap [OF reg, of 1 k] show False by auto
  qed
  ultimately show ?thesis by blast
qed

section \<open>Instances that match no rule\<close>

lemma satisfied_clauses_loop_eq:
  assumes "\<forall>(i, c) \<in> set ps. cl ! i = c"
  shows "satisfied_clauses_loop s x tc ps (map (\<lambda>i. cl ! i) acc)
         = map_sum id (map (\<lambda>i. cl ! i)) (satisfied_rules_loop s x tc ps acc)"
  using assms
proof (induction ps arbitrary: acc)
  case Nil
  then show ?case by simp
next
  case (Cons p ps)
  obtain i c where p: "p = (i, c)" by (cases p)
  with Cons.prems have c: "cl ! i = c" and rest: "\<forall>(i, c) \<in> set ps. cl ! i = c" by auto
  note IH = Cons.IH [OF rest]
  show ?case
  proof (cases "all_hold s x c")
    case (Inl e)
    with p show ?thesis using IH [of acc] by simp
  next
    case (Inr b)
    with p c show ?thesis using IH [of acc] IH [of "acc @ [i]"] by simp
  qed
qed

lemma satisfied_clauses_for_instance_eq:
  "satisfied_clauses_for_instance s x tc
   = map_sum id (map (\<lambda>i. rule_clauses s ! i)) (satisfied_rules s x tc)"
  using satisfied_clauses_loop_eq [of "enumerate 0 (rule_clauses s)" "rule_clauses s" s x tc "[]"]
  by (simp add: satisfied_clauses_for_instance_def satisfied_rules_def in_set_enumerate_eq
        case_prod_unfold)

lemma no_rules_no_clauses:
  "satisfied_rules s x tc = Inr [] \<Longrightarrow> satisfied_clauses_for_instance s x tc = Inr []"
  by (simp add: satisfied_clauses_for_instance_eq)

lemma dedup_loop_ids:
  "dedup_loop fmt s i sets seen acc = Inr results \<Longrightarrow> e \<in> set results
     \<Longrightarrow> e \<in> set acc \<or> instance_id e = i"
proof (induction sets arbitrary: seen acc)
  case Nil
  then show ?case by simp
next
  case (Cons a sets)
  from Cons.prems(1) obtain r where r: "map_err (literal_to_text fmt s) a = Inr r"
    by (auto split: sum.splits)
  show ?case
  proof (cases "sort r \<in> seen")
    case True
    with Cons.prems r have "dedup_loop fmt s i sets seen acc = Inr results" by simp
    from Cons.IH [OF this Cons.prems(2)] show ?thesis .
  next
    case False
    with Cons.prems r
    have "dedup_loop fmt s i sets (insert (sort r) seen)
            (acc @ [\<lparr> instance_id = i, axp = r \<rparr>]) = Inr results"
      by (simp add: Let_def)
    from Cons.IH [OF this Cons.prems(2)] show ?thesis by auto
  qed
qed

lemma batch_loop_ids:
  "batch_loop fmt s tc ps acc = Inr results \<Longrightarrow> e \<in> set results
     \<Longrightarrow> e \<in> set acc
         \<or> (\<exists>x clauses. (instance_id e, x) \<in> set ps
               \<and> satisfied_clauses_for_instance s x tc = Inr clauses \<and> clauses \<noteq> [])"
proof (induction ps arbitrary: acc)
  case Nil
  then show ?case by simp
next
  case (Cons p ps)
  obtain i x where p: "p = (i, x)" by (cases p)
  from Cons.prems(1) p obtain clauses
    where c: "satisfied_clauses_for_instance s x tc = Inr clauses"
    by (auto split: sum.splits)
  show ?case
  proof (cases "clauses = []")
    case True
    with Cons.prems p c have "batch_loop fmt s tc ps acc = Inr results" by simp
    from Cons.IH [OF this Cons.prems(2)] show ?thesis by auto
  next
    case False
    with Cons.prems(1) p c obtain acc'
      where d: "dedup_loop fmt s i (enumerate_axps clauses) {} acc = Inr acc'"
        and b: "batch_loop fmt s tc ps acc' = Inr results"
      by (auto split: sum.splits)
    from Cons.IH [OF b Cons.prems(2)]
    show ?thesis
    proof
      assume "e \<in> set acc'"
      from dedup_loop_ids [OF d this] p c False show ?thesis by auto
    next
      assume "\<exists>x clauses. (instance_id e, x) \<in> set ps
               \<and> satisfied_clauses_for_instance s x tc = Inr clauses \<and> clauses \<noteq> []"
      then show ?thesis by auto
    qed
  qed
qed

lemma explain_dataset_loop_rows:
  "explain_dataset_loop fmt s ps acc = Inr rows \<Longrightarrow>
     rows = acc @ map (\<lambda>(i, x, yhat). (i, yhat, projr (explain_instance fmt s x (Some yhat)))) ps"
proof (induction ps arbitrary: acc)
  case Nil
  then show ?case by simp
next
  case (Cons p ps)
  obtain i x yhat where p: "p = (i, x, yhat)" by (cases p)
  from Cons.prems p obtain a where a: "explain_instance fmt s x (Some yhat) = Inr a"
    and r: "explain_dataset_loop fmt s ps (acc @ [(i, yhat, a)]) = Inr rows"
    by (auto split: sum.splits)
  from Cons.IH [OF r] a p show ?case by simp
qed

text \<open>
  C5, as amended. For an instance that matches no rule of the target class,
  \<^verbatim>\<open>explain_literals\<close> returns the empty list and \<^verbatim>\<open>explain_instance\<close> the empty explanation;
  \<^verbatim>\<open>explain_dataset\<close>, when it returns, has the instance's row at the instance's index with
  the empty explanation; \<^verbatim>\<open>_batch_compute_axps\<close>, when it returns, has no entry for the
  instance, so nothing computed from its result counts the instance.
\<close>

theorem unexplainable_instance:
  assumes "satisfied_rules s x c = Inr []"
  shows "explain_literals s x c = Inr (Some [])
     \<and> explain_instance fmt s x (Some c) = Inr []
     \<and> (\<forall>X preds rows i. explain_dataset fmt s X (Some preds) = Inr rows
            \<and> i < length X \<and> i < length preds \<and> X ! i = x \<and> preds ! i = c
          \<longrightarrow> i < length rows \<and> rows ! i = (i, c, []))
     \<and> (\<forall>X results i. batch_compute_axps fmt s X c = Inr results \<and> i < length X \<and> X ! i = x
          \<longrightarrow> (\<forall>e \<in> set results. instance_id e \<noteq> i))"
proof (intro conjI allI impI)
  from assms show el: "explain_literals s x c = Inr (Some [])"
    by (simp add: explain_literals_def)
  then show ei: "explain_instance fmt s x (Some c) = Inr []"
    by (simp add: explain_instance_def)
  {
    fix X preds rows i
    assume h: "explain_dataset fmt s X (Some preds) = Inr rows
            \<and> i < length X \<and> i < length preds \<and> X ! i = x \<and> preds ! i = c"
    then have "rows = map (\<lambda>(i, x, yhat). (i, yhat, projr (explain_instance fmt s x (Some yhat))))
                 (enumerate 0 (zip X preds))"
      by (auto simp: explain_dataset_def dest: explain_dataset_loop_rows)
    with h ei show "i < length rows" and "rows ! i = (i, c, [])"
      by (simp_all add: nth_enumerate_eq)
  }
  {
    fix X results i
    assume h: "batch_compute_axps fmt s X c = Inr results \<and> i < length X \<and> X ! i = x"
    show "\<forall>e \<in> set results. instance_id e \<noteq> i"
    proof
      fix e assume e: "e \<in> set results"
      from h have "batch_loop fmt s c (enumerate 0 X) [] = Inr results"
        by (simp add: batch_compute_axps_def)
      from batch_loop_ids [OF this e]
      obtain x' clauses where "(instance_id e, x') \<in> set (enumerate 0 X)"
        and cl: "satisfied_clauses_for_instance s x' c = Inr clauses" "clauses \<noteq> []"
        by auto
      then have x': "x' = X ! instance_id e" by (simp add: in_set_enumerate_eq)
      show "instance_id e \<noteq> i"
      proof
        assume "instance_id e = i"
        with x' h have "x' = x" by simp
        with cl no_rules_no_clauses [OF assms] show False by simp
      qed
    qed
  }
qed

lemma two_tree_no_match: "satisfied_rules two_tree_explainer [2, 3] 1 = Inr []"
  by (simp add: satisfied_rules_def two_tree_explainer_fields enumerate_eq_zip upt_rec
        literal_condition_holds_def)

theorem unexplainable_instance_witness:
  "satisfied_rules two_tree_explainer [2, 3] 1 = Inr []
   \<and> explain_literals two_tree_explainer [2, 3] 1 = Inr (Some [])
   \<and> explain_dataset example_fmt two_tree_explainer [[7, 12], [2, 3]] (Some [1, 1])
       = Inr [(0, 1, [''A > 5'', ''B > 10'']), (1, 1, [])]
   \<and> batch_compute_axps example_fmt two_tree_explainer [[7, 12], [2, 3]] 1
       = Inr [\<lparr> instance_id = 0, axp = [''A > 5'', ''B > 10''] \<rparr>]"
proof -
  note e = two_tree_no_match
  note t = unexplainable_instance [OF e, of example_fmt]
  have m: "satisfied_rules two_tree_explainer [7, 12] 1 = Inr [1, 3]"
    by (rule two_tree_satisfied)
  have d: "explain_dataset example_fmt two_tree_explainer [[7, 12], [2, 3]] (Some [1, 1])
       = Inr [(0, 1, [''A > 5'', ''B > 10'']), (1, 1, [])]"
    using t
    by (simp add: explain_dataset_def enumerate_eq_zip upt_rec explain_instance_def
          explain_literals_def m compute_axp_def two_tree_explainer_fields
          hitman_get_def hits_def Let_def literal_to_text_def example_fmt_def)
  have b: "batch_compute_axps example_fmt two_tree_explainer [[7, 12], [2, 3]] 1
       = Inr [\<lparr> instance_id = 0, axp = [''A > 5'', ''B > 10''] \<rparr>]"
    by (simp add: batch_compute_axps_def enumerate_eq_zip upt_rec
          satisfied_clauses_for_instance_eq m e two_tree_explainer_fields
          enumerate_axps_def hitman_enumerate_def hits_def Let_def
          literal_to_text_def example_fmt_def)
  from t e d b show ?thesis by simp
qed

text \<open>
  The claim as stated fails for the batch results that the aggregate metrics are computed
  from: the instance \<open>[2, 3]\<close> matches no rule of class 1 and the batch result for it is
  empty.
\<close>

theorem batch_drops_unexplainable_counterexample:
  "satisfied_rules two_tree_explainer [2, 3] 1 = Inr []
   \<and> batch_compute_axps example_fmt two_tree_explainer [[2, 3]] 1 = Inr []"
  by (simp add: batch_compute_axps_def enumerate_eq_zip upt_rec
        satisfied_clauses_for_instance_eq two_tree_no_match)

section \<open>Chunked processing\<close>

lemma process_large_dataset_TypeError:
  assumes "X \<noteq> []" and "0 < batch_size"
  shows "process_large_dataset fmt s X batch_size = Inl TypeError"
proof -
  from assms(1) have "[0..<length X] = 0 # [1..<length X]"
    by (simp add: upt_conv_Cons)
  with assms(2) obtain starts where "py_range0 (length X) batch_size = 0 # starts"
    by (simp add: py_range0_def)
  with assms(2) show ?thesis
    by (simp add: process_large_dataset_def call_compute_feature_attribution_def)
qed

text \<open>
  C6. \<^verbatim>\<open>process_large_dataset\<close> does not reach an aggregate: on a dataset with a row and a
  positive batch size the first batch's call of \<^verbatim>\<open>compute_feature_attribution\<close> lacks the
  predictions and raises TypeError, where the single pass over the same rows returns a
  table.
\<close>

theorem process_large_dataset_raises:
  "process_large_dataset example_fmt two_tree_explainer [[7, 12], [2, 12], [7, 3]] 2
     = Inl TypeError
   \<and> process_large_dataset example_fmt two_tree_explainer [[7, 12]] 1000 = Inl TypeError
   \<and> (\<exists>table. compute_feature_attribution example_fmt two_tree_explainer
                  [[7, 12], [2, 12], [7, 3]] [1, 1, 1] None = Inr table)"
proof -
  have "compute_feature_attribution example_fmt two_tree_explainer
                  [[7, 12], [2, 12], [7, 3]] [1, 1, 1] None
        = Inr [(0, []),
               (1, [\<lparr> feature = ''A'', support = 2, coverage = 2, essentiality_ratio = 2 / 3,
                      contrastive_instances = 0, relative_importance = 1 / 2 \<rparr>,
                    \<lparr> feature = ''B'', support = 2, coverage = 2, essentiality_ratio = 2 / 3,
                      contrastive_instances = 0, relative_importance = 1 / 2 \<rparr>])]"
    by (simp add: compute_feature_attribution_def batch_compute_axps_def enumerate_eq_zip upt_rec
          satisfied_clauses_for_instance_def literal_condition_holds_def
          two_tree_explainer_fields
          enumerate_axps_def hitman_enumerate_def hits_def Let_def
          literal_to_text_def example_fmt_def compute_feature_metrics_def
          process_instance_def first_token_def py_isspace_def init_trackers_def
          update_feature_def metrics_row_def true_div_def counter_get_def)
  then show ?thesis
    by (simp add: process_large_dataset_TypeError)
qed

section \<open>Feature attribution\<close>

lemma map_err_Inr_iff:
  "map_err f xs = Inr ys \<longleftrightarrow> list_all2 (\<lambda>x y. f x = Inr y) xs ys"
proof (induction xs arbitrary: ys)
  case Nil
  then show ?case by auto
next
  case (Cons x xs)
  show ?case
  proof (cases "f x")
    case (Inl e)
    then show ?thesis by (auto simp: list_all2_Cons1)
  next
    case fx: (Inr y)
    show ?thesis
    proof (cases "map_err f xs")
      case (Inl e)
      have "\<And>zs. \<not> list_all2 (\<lambda>x y. f x = Inr y) xs zs"
        using Cons.IH Inl by (metis sum.distinct(1))
      with Inl fx show ?thesis by (auto simp: list_all2_Cons1)
    next
      case (Inr zs)
      have "\<And>ws. list_all2 (\<lambda>x y. f x = Inr y) xs ws \<longleftrightarrow> ws = zs"
        using Cons.IH Inr by (metis sum.inject(2))
      with Inr fx show ?thesis by (auto simp: list_all2_Cons1)
    qed
  qed
qed

lemma list_all2_setD2:
  "list_all2 P xs ys \<Longrightarrow> y \<in> set ys \<Longrightarrow> \<exists>x \<in> set xs. P x y"
  by (induction rule: list_all2_induct) auto

lemma map_err_defined:
  "(\<forall>x \<in> set xs. \<exists>y. f x = Inr y) \<Longrightarrow> \<exists>ys. map_err f xs = Inr ys"
  by (induction xs) (auto split: sum.splits)

lemma map_err_tokens:
  assumes "map_err first_token e = Inr fs"
  shows "set fs = {f. appears_in f e}"
proof -
  from assms have "list_all2 (\<lambda>x y. first_token x = Inr y) e fs" by (simp add: map_err_Inr_iff)
  then show ?thesis
    unfolding appears_in_def
    by (induction rule: list_all2_induct) auto
qed

lemma map_err_map_err_tokens:
  assumes "map_err (map_err first_token) es = Inr fss"
  shows "set (concat fss) = {f. \<exists>e \<in> set es. appears_in f e}"
    and "list_all2 (\<lambda>e fs. set fs = {f. appears_in f e}) es fss"
proof -
  from assms have a: "list_all2 (\<lambda>e fs. map_err first_token e = Inr fs) es fss"
    by (simp add: map_err_Inr_iff)
  then show b: "list_all2 (\<lambda>e fs. set fs = {f. appears_in f e}) es fss"
    by (rule list_all2_mono) (simp add: map_err_tokens)
  then show "set (concat fss) = {f. \<exists>e \<in> set es. appears_in f e}"
    by (induction rule: list_all2_induct) auto
qed

subsection \<open>Grouping by instance\<close>

lemma group_append_keys:
  "fst ` set (group_append g k v) = insert k (fst ` set g)"
  by (induction g k v rule: group_append.induct) auto

lemma group_append_distinct:
  "distinct (map fst g) \<Longrightarrow> distinct (map fst (group_append g k v))"
  by (induction g k v rule: group_append.induct) (auto simp: group_append_keys)

lemma group_append_mem:
  "distinct (map fst g) \<Longrightarrow> (i, es) \<in> set (group_append g k v) \<Longrightarrow>
     (i \<noteq> k \<and> (i, es) \<in> set g)
     \<or> (i = k \<and> (\<exists>vs. es = vs @ [v] \<and> ((k, vs) \<in> set g \<or> (vs = [] \<and> k \<notin> fst ` set g))))"
proof (induction g k v rule: group_append.induct)
  case (1 k v)
  then show ?case by auto
next
  case (2 k' vs rest k v)
  show ?case
  proof (cases "k' = k")
    case True
    with 2 show ?thesis by (auto simp: image_iff)
  next
    case False
    with 2 show ?thesis by (auto simp: image_iff)
  qed
qed

lemma grouped_step:
  assumes "grouped axps g"
  shows "grouped (axps @ [a]) (group_append g (instance_id a) (axp a))"
  unfolding grouped_def
proof (intro conjI allI impI)
  from assms have d: "distinct (map fst g)" and k: "fst ` set g = instance_id ` set axps"
    and m: "\<And>i es. (i, es) \<in> set g \<Longrightarrow> set es = {axp b |b. b \<in> set axps \<and> instance_id b = i}"
    by (auto simp: grouped_def)
  from d show "distinct (map fst (group_append g (instance_id a) (axp a)))"
    by (rule group_append_distinct)
  from k show "fst ` set (group_append g (instance_id a) (axp a)) = instance_id ` set (axps @ [a])"
    by (auto simp: group_append_keys)
  fix i es
  assume "(i, es) \<in> set (group_append g (instance_id a) (axp a))"
  from group_append_mem [OF d this]
  show "set es = {axp b |b. b \<in> set (axps @ [a]) \<and> instance_id b = i}"
  proof (elim disjE conjE exE)
    assume "i \<noteq> instance_id a" "(i, es) \<in> set g"
    with m [of i es] show ?thesis by auto
  next
    fix vs
    assume i: "i = instance_id a" and es: "es = vs @ [axp a]"
      and "(instance_id a, vs) \<in> set g"
    from m [OF this(3)] i es show ?thesis by auto
  next
    fix vs
    assume i: "i = instance_id a" and es: "es = vs @ [axp a]"
      and "vs = []" "instance_id a \<notin> fst ` set g"
    with k show ?thesis by (auto simp: image_iff)
  qed
qed

lemma grouped_fold:
  "grouped pre g \<Longrightarrow>
     grouped (pre @ axps) (fold (\<lambda>a g. group_append g (instance_id a) (axp a)) axps g)"
proof (induction axps arbitrary: pre g)
  case Nil
  then show ?case by simp
next
  case (Cons a axps)
  from Cons.IH [OF grouped_step [OF Cons.prems, of a]] show ?case by simp
qed

lemma grouped_instance_groups:
  "grouped axps (fold (\<lambda>a g. group_append g (instance_id a) (axp a)) axps [])"
  using grouped_fold [of "[]" "[]" axps] by (simp add: grouped_def)

lemma grouped_features:
  assumes "grouped axps g" "(i, es) \<in> set g"
  shows "f \<in> group_features es \<longleftrightarrow> (\<exists>a \<in> set axps. instance_id a = i \<and> appears_in f (axp a))"
proof -
  from assms have "set es = {axp a |a. a \<in> set axps \<and> instance_id a = i}"
    by (simp add: grouped_def)
  then show ?thesis unfolding group_features_def by auto
qed

subsection \<open>Counters and trackers\<close>

lemma counter_inc_keys: "fst ` set (counter_inc c f) = insert f (fst ` set c)"
  by (induction c f rule: counter_inc.induct) auto

lemma counter_inc_distinct:
  "distinct (map fst c) \<Longrightarrow> distinct (map fst (counter_inc c f))"
  by (induction c f rule: counter_inc.induct) (auto simp: counter_inc_keys)

lemma counter_get_inc:
  "counter_get (counter_inc c f) g = (if g = f then counter_get c f + 1 else counter_get c g)"
  by (induction c f rule: counter_inc.induct) (auto simp: counter_get_def)

lemma counter_inc_positive:
  "(\<forall>p \<in> set c. 0 < snd p) \<Longrightarrow> (\<forall>p \<in> set (counter_inc c f). 0 < snd p)"
  by (induction c f rule: counter_inc.induct) auto

lemma counter_get_distinct:
  "distinct (map fst c) \<Longrightarrow> p \<in> set c \<Longrightarrow> counter_get c (fst p) = snd p"
  by (cases p) (simp add: counter_get_def)

lemma update_feature_fields:
  "coverage_map (update_feature i fsets f tr)
     = (coverage_map tr)(f := insert i (coverage_map tr f))"
  "support_counter (update_feature i fsets f tr) = counter_inc (support_counter tr) f"
  by (simp_all add: update_feature_def Let_def)

text \<open>The trackers the claims read, after a run over the features \<open>fs\<close> of one instance.\<close>

lemma fold_update_feature:
  "coverage_map (fold (update_feature i fsets) fs tr) f
     = (if f \<in> set fs then insert i (coverage_map tr f) else coverage_map tr f)"
  "fst ` set (support_counter (fold (update_feature i fsets) fs tr))
     = fst ` set (support_counter tr) \<union> set fs"
  "distinct (map fst (support_counter tr))
     \<Longrightarrow> distinct (map fst (support_counter (fold (update_feature i fsets) fs tr)))"
  "(\<forall>p \<in> set (support_counter tr). 0 < snd p)
     \<Longrightarrow> (\<forall>p \<in> set (support_counter (fold (update_feature i fsets) fs tr)). 0 < snd p)"
  "counter_get (support_counter (fold (update_feature i fsets) fs tr)) f
     = counter_get (support_counter tr) f + count_list fs f"
proof (induction fs arbitrary: tr)
  case Nil
  {
    case 1 show ?case by simp
  next
    case 2 show ?case by simp
  next
    case 3 then show ?case by simp
  next
    case 4 then show ?case by simp
  next
    case 5 show ?case by simp
  }
next
  case (Cons g fs)
  {
    case 1 show ?case
      by (simp add: Cons.IH(1) update_feature_fields)
  next
    case 2 show ?case
      by (simp add: Cons.IH(2) update_feature_fields counter_inc_keys)
  next
    case 3 then show ?case
      by (simp add: Cons.IH(3) update_feature_fields counter_inc_distinct)
  next
    case 4 then show ?case
      using Cons.IH(4) [of "update_feature i fsets g tr"]
      by (simp add: update_feature_fields counter_inc_positive)
  next
    case 5 show ?case
      by (simp add: Cons.IH(5) update_feature_fields counter_get_inc)
  }
qed

lemma fold_essentiality_fields:
  "coverage_map (fold (\<lambda>f t. t\<lparr> essentiality := (essentiality t)(f := essentiality t f + 1) \<rparr>) fs tr)
     = coverage_map tr"
  "support_counter (fold (\<lambda>f t. t\<lparr> essentiality := (essentiality t)(f := essentiality t f + 1) \<rparr>) fs tr)
     = support_counter tr"
  by (induction fs arbitrary: tr) simp_all

lemma count_list_remdups: "count_list (remdups xs) x = (if x \<in> set xs then 1 else 0)"
  by (induction xs) auto

lemma process_instance_fields:
  assumes "process_instance tr (i, es) = Inr tr'"
  shows "coverage_map tr' f
           = (if f \<in> group_features es then insert i (coverage_map tr f) else coverage_map tr f)"
    and "fst ` set (support_counter tr') = fst ` set (support_counter tr) \<union> group_features es"
    and "distinct (map fst (support_counter tr)) \<Longrightarrow> distinct (map fst (support_counter tr'))"
    and "(\<forall>p \<in> set (support_counter tr). 0 < snd p) \<Longrightarrow> (\<forall>p \<in> set (support_counter tr'). 0 < snd p)"
    and "counter_get (support_counter tr') f
           = counter_get (support_counter tr) f + (if f \<in> group_features es then 1 else 0)"
proof -
  from assms obtain fss where fss: "map_err (map_err first_token) es = Inr fss"
    by (auto simp: process_instance_def split: sum.splits)
  define fsets where "fsets = map set fss"
  define ess where "ess = (if fsets = [] then []
       else filter (\<lambda>f. list_all (\<lambda>fs. f \<in> fs) fsets) (remdups (concat fss)))"
  define tr1 where "tr1 = fold (\<lambda>f t. t\<lparr> essentiality := (essentiality t)(f := essentiality t f + 1) \<rparr>) ess tr"
  define U where "U = remdups (concat fss)"
  from assms fss have tr': "tr' = fold (update_feature i fsets) U tr1"
    by (auto simp: process_instance_def Let_def fsets_def ess_def tr1_def U_def)
  have gf: "set U = group_features es"
    using map_err_map_err_tokens(1) [OF fss] by (simp add: group_features_def U_def)
  have cl: "count_list U f = (if f \<in> group_features es then 1 else 0)"
    using map_err_map_err_tokens(1) [OF fss]
    by (simp add: U_def count_list_remdups group_features_def)
  have c1: "coverage_map tr1 = coverage_map tr" and s1: "support_counter tr1 = support_counter tr"
    unfolding tr1_def by (rule fold_essentiality_fields)+
  show "coverage_map tr' f
           = (if f \<in> group_features es then insert i (coverage_map tr f) else coverage_map tr f)"
    by (simp only: tr' fold_update_feature(1) c1 gf)
  show "fst ` set (support_counter tr') = fst ` set (support_counter tr) \<union> group_features es"
    by (simp only: tr' fold_update_feature(2) s1 gf)
  show "distinct (map fst (support_counter tr)) \<Longrightarrow> distinct (map fst (support_counter tr'))"
    unfolding tr' using fold_update_feature(3) [of tr1] by (simp only: s1)
  show "(\<forall>p \<in> set (support_counter tr). 0 < snd p) \<Longrightarrow> (\<forall>p \<in> set (support_counter tr'). 0 < snd p)"
    unfolding tr' using fold_update_feature(4) [of tr1] by (simp only: s1)
  show "counter_get (support_counter tr') f
           = counter_get (support_counter tr) f + (if f \<in> group_features es then 1 else 0)"
    by (simp only: tr' fold_update_feature(5) s1 cl)
qed

lemma process_groups_fields:
  assumes "process_groups tr G = Inr tr'"
  shows "coverage_map tr' f
           = coverage_map tr f \<union> {i. \<exists>es. (i, es) \<in> set G \<and> f \<in> group_features es}"
    and "fst ` set (support_counter tr')
           = fst ` set (support_counter tr) \<union> {f. \<exists>i es. (i, es) \<in> set G \<and> f \<in> group_features es}"
    and "distinct (map fst (support_counter tr)) \<Longrightarrow> distinct (map fst (support_counter tr'))"
    and "(\<forall>p \<in> set (support_counter tr). 0 < snd p) \<Longrightarrow> (\<forall>p \<in> set (support_counter tr'). 0 < snd p)"
  using assms
proof (induction G arbitrary: tr)
  case Nil
  {
    case 1 then show ?case by simp
  next
    case 2 then show ?case by simp
  next
    case 3 then show ?case by simp
  next
    case 4 then show ?case by simp
  }
next
  case (Cons g G)
  obtain i es where g: "g = (i, es)" by (cases g)
  {
    case 1
    then obtain tr1 where p: "process_instance tr (i, es) = Inr tr1"
      and r: "process_groups tr1 G = Inr tr'"
      by (auto simp: g split: sum.splits)
    show ?case
      unfolding Cons.IH(1) [OF r] process_instance_fields(1) [OF p] g by auto
  next
    case 2
    then obtain tr1 where p: "process_instance tr (i, es) = Inr tr1"
      and r: "process_groups tr1 G = Inr tr'"
      by (auto simp: g split: sum.splits)
    show ?case
      unfolding Cons.IH(2) [OF r] process_instance_fields(2) [OF p] g by auto
  next
    case 3
    then obtain tr1 where p: "process_instance tr (i, es) = Inr tr1"
      and r: "process_groups tr1 G = Inr tr'"
      by (auto simp: g split: sum.splits)
    from 3(1) show ?case
      by (intro Cons.IH(3) [OF _ r] process_instance_fields(3) [OF p])
  next
    case 4
    then obtain tr1 where p: "process_instance tr (i, es) = Inr tr1"
      and r: "process_groups tr1 G = Inr tr'"
      by (auto simp: g split: sum.splits)
    from 4(1) show ?case
      by (intro Cons.IH(4) [OF _ r] process_instance_fields(4) [OF p])
  }
qed

lemma process_instance_defined:
  assumes "\<forall>e \<in> set es. \<forall>cond \<in> set e. \<exists>f. first_token cond = Inr f"
  shows "\<exists>tr'. process_instance tr (i, es) = Inr tr'"
proof -
  from assms have "\<forall>e \<in> set es. \<exists>fs. map_err first_token e = Inr fs"
    by (auto intro: map_err_defined)
  then obtain fss where "map_err (map_err first_token) es = Inr fss"
    using map_err_defined [of es "map_err first_token"] by blast
  then show ?thesis by (simp add: process_instance_def Let_def)
qed

lemma process_groups_defined:
  assumes "\<forall>g \<in> set G. \<forall>e \<in> set (snd g). \<forall>cond \<in> set e. \<exists>f. first_token cond = Inr f"
  shows "\<exists>tr'. process_groups tr G = Inr tr'"
  using assms
proof (induction G arbitrary: tr)
  case Nil
  then show ?case by simp
next
  case (Cons g G)
  obtain i es where g: "g = (i, es)" by (cases g)
  with Cons.prems obtain tr1 where "process_instance tr (i, es) = Inr tr1"
    using process_instance_defined [of es tr i] by auto
  moreover from Cons.prems obtain tr' where "process_groups tr1 G = Inr tr'"
    using Cons.IH [of tr1] by auto
  ultimately show ?case by (simp add: g)
qed

lemma metrics_row_fields:
  assumes "metrics_row tr n f = Inr m"
  shows "feature m = f" "support m = counter_get (support_counter tr) f"
    "coverage m = card (coverage_map tr f)"
    "sum_list (map snd (support_counter tr)) \<noteq> 0"
    "relative_importance m
       = of_nat (support m) / of_nat (sum_list (map snd (support_counter tr)))"
  using assms by (auto simp: metrics_row_def true_div_def split: if_splits)

lemma compute_feature_metrics_table:
  assumes "compute_feature_metrics axps = Inr metrics"
  obtains tr n where
    "list_all2 (\<lambda>f m. metrics_row tr n f = Inr m) (map fst (support_counter tr)) metrics"
    and "distinct (map fst (support_counter tr))"
    and "\<And>f. coverage_map tr f = {i. \<exists>a \<in> set axps. instance_id a = i \<and> appears_in f (axp a)}"
    and "fst ` set (support_counter tr) = {f. \<exists>a \<in> set axps. appears_in f (axp a)}"
proof -
  let ?G = "fold (\<lambda>a g. group_append g (instance_id a) (axp a)) axps []"
  from assms obtain tr where tr: "process_groups init_trackers ?G = Inr tr"
    and rows: "map_err (metrics_row tr (length ?G)) (map fst (support_counter tr)) = Inr metrics"
    by (auto simp: compute_feature_metrics_def Let_def split: sum.splits)
  note gr = grouped_instance_groups [of axps]
  have in_group: "\<And>i f. (\<exists>es. (i, es) \<in> set ?G \<and> f \<in> group_features es)
      \<longleftrightarrow> (\<exists>a \<in> set axps. instance_id a = i \<and> appears_in f (axp a))"
  proof
    fix i f
    assume "\<exists>es. (i, es) \<in> set ?G \<and> f \<in> group_features es"
    then obtain es where "(i, es) \<in> set ?G" "f \<in> group_features es" by blast
    with grouped_features [OF gr] show "\<exists>a \<in> set axps. instance_id a = i \<and> appears_in f (axp a)"
      by blast
  next
    fix i f
    assume a: "\<exists>a \<in> set axps. instance_id a = i \<and> appears_in f (axp a)"
    then have "i \<in> instance_id ` set axps" by auto
    with gr have "i \<in> fst ` set ?G" by (simp add: grouped_def)
    then obtain es where es: "(i, es) \<in> set ?G" by auto
    with grouped_features [OF gr es] a
    show "\<exists>es. (i, es) \<in> set ?G \<and> f \<in> group_features es" by blast
  qed
  have 1: "list_all2 (\<lambda>f m. metrics_row tr (length ?G) f = Inr m)
             (map fst (support_counter tr)) metrics"
    using rows by (simp add: map_err_Inr_iff)
  have 2: "distinct (map fst (support_counter tr))"
    using process_groups_fields(3) [OF tr] by (simp add: init_trackers_def)
  have 3: "\<And>f. coverage_map tr f
      = {i. \<exists>a \<in> set axps. instance_id a = i \<and> appears_in f (axp a)}"
    unfolding process_groups_fields(1) [OF tr] in_group by (simp add: init_trackers_def)
  have 4: "fst ` set (support_counter tr) = {f. \<exists>a \<in> set axps. appears_in f (axp a)}"
    unfolding process_groups_fields(2) [OF tr] using in_group
    by (auto simp: init_trackers_def)
  from 1 2 3 4 show ?thesis by (rule that)
qed

lemma compute_feature_metrics_defined:
  assumes "\<forall>a \<in> set axps. \<forall>cond \<in> set (axp a). \<exists>f. first_token cond = Inr f"
  shows "\<exists>metrics. compute_feature_metrics axps = Inr metrics"
proof -
  let ?G = "fold (\<lambda>a g. group_append g (instance_id a) (axp a)) axps []"
  note gr = grouped_instance_groups [of axps]
  have "\<forall>g \<in> set ?G. \<forall>e \<in> set (snd g). \<forall>cond \<in> set e. \<exists>f. first_token cond = Inr f"
  proof (intro ballI)
    fix g e cond
    assume g: "g \<in> set ?G" and e: "e \<in> set (snd g)" and c: "cond \<in> set e"
    from g have "(fst g, snd g) \<in> set ?G" by simp
    with gr have "set (snd g) = {axp a |a. a \<in> set axps \<and> instance_id a = fst g}"
      unfolding grouped_def by blast
    with e obtain a where "a \<in> set axps" "e = axp a" by auto
    with assms c show "\<exists>f. first_token cond = Inr f" by auto
  qed
  from process_groups_defined [OF this]
  obtain tr where tr: "process_groups init_trackers ?G = Inr tr" by blast
  have pos: "\<forall>p \<in> set (support_counter tr). 0 < snd p"
    using process_groups_fields(4) [OF tr] by (simp add: init_trackers_def)
  have "\<forall>f \<in> set (map fst (support_counter tr)). \<exists>m. metrics_row tr (length ?G) f = Inr m"
  proof
    fix f assume "f \<in> set (map fst (support_counter tr))"
    then obtain p where p: "p \<in> set (support_counter tr)" by auto
    with pos have "0 < snd p" by simp
    with p have "\<exists>n \<in> set (support_counter tr). 0 < snd n" by blast
    then show "\<exists>m. metrics_row tr (length ?G) f = Inr m"
      by (simp add: metrics_row_def true_div_def)
  qed
  from map_err_defined [OF this] tr show ?thesis
    by (simp add: compute_feature_metrics_def Let_def)
qed

subsection \<open>The aggregator of \<^verbatim>\<open>CatBoostAXPExplainer\<close>\<close>

lemma stats_update_keys: "fst ` set (stats_update st f i c) = insert f (fst ` set st)"
  by (induction st f i c rule: stats_update.induct) auto

lemma stats_update_distinct:
  "distinct (map fst st) \<Longrightarrow> distinct (map fst (stats_update st f i c))"
  by (induction st f i c rule: stats_update.induct) (auto simp: stats_update_keys)

lemma stat_instances_update_same:
  "stat_instances (stats_update st f i c) f = insert i (stat_instances st f)"
  by (induction st f i c rule: stats_update.induct) simp_all

lemma stat_instances_update_other:
  "g \<noteq> f \<Longrightarrow> stat_instances (stats_update st f i c) g = stat_instances st g"
  by (induction st f i c rule: stats_update.induct) simp_all

lemma stat_instances_update:
  "stat_instances (stats_update st f i c) g
     = (if g = f then insert i (stat_instances st f) else stat_instances st g)"
  by (simp add: stat_instances_update_same stat_instances_update_other)

lemma stat_instances_mem:
  "distinct (map fst st) \<Longrightarrow> (f, n, ins, cs) \<in> set st \<Longrightarrow> stat_instances st f = ins"
  by (induction st) (auto simp: image_iff)

lemma conditions_loop_fields:
  assumes "conditions_loop st i conds = Inr st'"
  shows "stat_instances st' g
           = (if appears_in g conds then insert i (stat_instances st g) else stat_instances st g)"
    and "distinct (map fst st) \<Longrightarrow> distinct (map fst st')"
  using assms
proof (induction conds arbitrary: st)
  case Nil
  {
    case 1 then show ?case by (simp add: appears_in_def)
  next
    case 2 then show ?case by simp
  }
next
  case (Cons cond conds)
  {
    case 1
    then obtain f where f: "first_token cond = Inr f"
      and r: "conditions_loop (stats_update st f i cond) i conds = Inr st'"
      by (auto split: sum.splits)
    have "appears_in g (cond # conds) \<longleftrightarrow> g = f \<or> appears_in g conds"
      using f by (auto simp: appears_in_def)
    then show ?case
      unfolding Cons.IH(1) [OF r] stat_instances_update by auto
  next
    case 2
    then obtain f where f: "first_token cond = Inr f"
      and r: "conditions_loop (stats_update st f i cond) i conds = Inr st'"
      by (auto split: sum.splits)
    from 2(1) show ?case
      by (intro Cons.IH(2) [OF _ r] stats_update_distinct)
  }
qed

lemma feature_stats_loop_fields:
  assumes "feature_stats_loop st xs = Inr st'"
  shows "stat_instances st' g
           = stat_instances st g
             \<union> {i. \<exists>a \<in> set xs. instance_idx a = i \<and> appears_in g (conditions a)}"
    and "distinct (map fst st) \<Longrightarrow> distinct (map fst st')"
  using assms
proof (induction xs arbitrary: st)
  case Nil
  {
    case 1 then show ?case by simp
  next
    case 2 then show ?case by simp
  }
next
  case (Cons a xs)
  {
    case 1
    then obtain st1 where c: "conditions_loop st (instance_idx a) (conditions a) = Inr st1"
      and r: "feature_stats_loop st1 xs = Inr st'"
      by (auto split: sum.splits)
    show ?case
      unfolding Cons.IH(1) [OF r] conditions_loop_fields(1) [OF c] by auto
  next
    case 2
    then obtain st1 where c: "conditions_loop st (instance_idx a) (conditions a) = Inr st1"
      and r: "feature_stats_loop st1 xs = Inr st'"
      by (auto split: sum.splits)
    from 2(1) show ?case
      by (intro Cons.IH(2) [OF _ r] conditions_loop_fields(2) [OF c])
  }
qed

lemma axp_coverage_ratio:
  assumes "axp_compute_feature_metrics xs = Inr rows" and "r \<in> set rows"
  shows "stat_coverage r
     = of_nat (card {i. \<exists>a \<in> set xs. instance_idx a = i \<and> appears_in (stat_feature r) (conditions a)})
       / of_nat (length xs)"
proof -
  from assms(1) obtain st where st: "feature_stats_loop [] xs = Inr st"
    and rows: "map_err (stat_row (length xs)) st = Inr rows"
    by (auto simp: axp_compute_feature_metrics_def split: sum.splits)
  from rows have "list_all2 (\<lambda>e r. stat_row (length xs) e = Inr r) st rows"
    by (simp add: map_err_Inr_iff)
  from list_all2_setD2 [OF this assms(2)]
  obtain e where e: "e \<in> set st" and row: "stat_row (length xs) e = Inr r"
    by blast
  obtain f n ins cs where ed: "e = (f, n, ins, cs)" by (cases e)
  from row ed have r: "stat_feature r = f" "stat_coverage r = of_nat (card ins) / of_nat (length xs)"
    by (auto simp: stat_row_def true_div_def split: if_splits)
  have "distinct (map fst st)"
    using feature_stats_loop_fields(2) [OF st] by simp
  with e ed have "stat_instances st f = ins" by (simp add: stat_instances_mem)
  with feature_stats_loop_fields(1) [OF st, of f]
  have "ins = {i. \<exists>a \<in> set xs. instance_idx a = i \<and> appears_in f (conditions a)}"
    by simp
  with r show ?thesis by simp
qed

subsection \<open>Coverage and relative importance\<close>

lemma metrics_rows:
  assumes "list_all2 (\<lambda>f m. metrics_row tr n f = Inr m) keys metrics"
  shows "map feature metrics = keys"
    and "map support metrics = map (counter_get (support_counter tr)) keys"
  using assms
  by (induction rule: list_all2_induct) (simp_all add: metrics_row_fields(1,2))

lemma counter_values:
  assumes "distinct (map fst c)"
  shows "map (counter_get c) (map fst c) = map snd c"
proof -
  have "map (\<lambda>p. counter_get c (fst p)) c = map snd c"
    by (rule map_cong) (simp_all add: counter_get_distinct [OF assms])
  then show ?thesis by (simp add: comp_def)
qed

lemma sum_list_importance:
  "sum_list (map (\<lambda>m. (of_nat (support m) :: rat) / t) metrics)
     = of_nat (sum_list (map support metrics)) / t"
proof (induction metrics)
  case Nil
  show ?case by simp
next
  case (Cons m ms)
  have "sum_list (map (\<lambda>m. (of_nat (support m) :: rat) / t) (m # ms))
        = of_nat (support m) / t + sum_list (map (\<lambda>m. (of_nat (support m) :: rat) / t) ms)"
    by simp
  also have "\<dots> = of_nat (support m) / t + of_nat (sum_list (map support ms)) / t"
    by (simp only: Cons.IH)
  also have "\<dots> = (of_nat (support m) + of_nat (sum_list (map support ms))) / t"
    by (simp only: add_divide_distrib)
  also have "\<dots> = of_nat (sum_list (map support (m # ms))) / t"
    by simp
  finally show ?case .
qed

text \<open>
  C8, as amended. The table of \<^verbatim>\<open>CatBoostSymbolicExplainer._compute_feature_metrics\<close> has one
  row for every feature that appears in an explanation, and the row's coverage is the number
  of distinct instances that have an explanation in which the feature appears, however many
  explanations those are; the function returns when every condition string has a first
  token. In the table of \<^verbatim>\<open>CatBoostAXPExplainer._compute_feature_metrics\<close> the coverage is
  that number of instances divided by the number of explanation records.
\<close>

theorem coverage_counts_distinct_instances:
  "((\<forall>a \<in> set axps. \<forall>cond \<in> set (axp a). \<exists>f. first_token cond = Inr f)
      \<longrightarrow> (\<exists>metrics. compute_feature_metrics axps = Inr metrics))
   \<and> (\<forall>metrics. compute_feature_metrics axps = Inr metrics \<longrightarrow>
         distinct (map feature metrics)
         \<and> feature ` set metrics = {f. \<exists>a \<in> set axps. appears_in f (axp a)}
         \<and> (\<forall>m \<in> set metrics.
               coverage m
               = card {i. \<exists>a \<in> set axps. instance_id a = i \<and> appears_in (feature m) (axp a)}))
   \<and> (\<forall>rows. axp_compute_feature_metrics xs = Inr rows \<longrightarrow>
         (\<forall>r \<in> set rows.
            stat_coverage r
            = of_nat (card {i. \<exists>a \<in> set xs. instance_idx a = i
                               \<and> appears_in (stat_feature r) (conditions a)})
              / of_nat (length xs)))"
proof (intro conjI allI impI ballI)
  assume "\<forall>a \<in> set axps. \<forall>cond \<in> set (axp a). \<exists>f. first_token cond = Inr f"
  then show "\<exists>metrics. compute_feature_metrics axps = Inr metrics"
    by (rule compute_feature_metrics_defined)
next
  fix metrics
  assume c: "compute_feature_metrics axps = Inr metrics"
  from compute_feature_metrics_table [OF c]
  obtain tr n where rows: "list_all2 (\<lambda>f m. metrics_row tr n f = Inr m)
        (map fst (support_counter tr)) metrics"
    and d: "distinct (map fst (support_counter tr))"
    and cm: "\<And>f. coverage_map tr f
        = {i. \<exists>a \<in> set axps. instance_id a = i \<and> appears_in f (axp a)}"
    and keys: "fst ` set (support_counter tr) = {f. \<exists>a \<in> set axps. appears_in f (axp a)}"
    by blast
  note mf = metrics_rows(1) [OF rows]
  from d mf show "distinct (map feature metrics)" by simp
  have "feature ` set metrics = set (map feature metrics)" by simp
  also have "\<dots> = fst ` set (support_counter tr)" by (simp only: mf set_map)
  finally show "feature ` set metrics = {f. \<exists>a \<in> set axps. appears_in f (axp a)}"
    by (simp only: keys)
  fix m
  assume "m \<in> set metrics"
  from list_all2_setD2 [OF rows this]
  obtain f where "metrics_row tr n f = Inr m" by blast
  from metrics_row_fields(1,3) [OF this] cm
  show "coverage m
        = card {i. \<exists>a \<in> set axps. instance_id a = i \<and> appears_in (feature m) (axp a)}"
    by simp
next
  fix rows r
  assume "axp_compute_feature_metrics xs = Inr rows" "r \<in> set rows"
  then show "stat_coverage r
            = of_nat (card {i. \<exists>a \<in> set xs. instance_idx a = i
                               \<and> appears_in (stat_feature r) (conditions a)})
              / of_nat (length xs)"
    by (rule axp_coverage_ratio)
qed

text \<open>
  C9, as amended. In the table that \<^verbatim>\<open>_compute_feature_metrics\<close> returns, each feature's
  relative importance is its support divided by the sum of the supports of all rows, as an
  exact fraction; when a feature appears in some explanation, the table has a row and the
  relative importances of its rows add up to 1.
\<close>

theorem relative_importance_normalised:
  assumes "compute_feature_metrics axps = Inr metrics"
  shows "(\<forall>m \<in> set metrics.
            relative_importance m
            = of_nat (support m) / of_nat (sum_list (map support metrics)))
     \<and> ((\<exists>a \<in> set axps. \<exists>f. appears_in f (axp a))
          \<longrightarrow> metrics \<noteq> [] \<and> sum_list (map relative_importance metrics) = 1)"
proof -
  from compute_feature_metrics_table [OF assms]
  obtain tr n where rows: "list_all2 (\<lambda>f m. metrics_row tr n f = Inr m)
        (map fst (support_counter tr)) metrics"
    and d: "distinct (map fst (support_counter tr))"
    and cm: "\<And>f. coverage_map tr f
        = {i. \<exists>a \<in> set axps. instance_id a = i \<and> appears_in f (axp a)}"
    and keys: "fst ` set (support_counter tr) = {f. \<exists>a \<in> set axps. appears_in f (axp a)}"
    by blast
  define T where "T = sum_list (map snd (support_counter tr))"
  have total: "sum_list (map support metrics) = T"
    unfolding T_def by (simp only: metrics_rows(2) [OF rows] counter_values [OF d])
  have each: "T \<noteq> 0 \<and> relative_importance m = of_nat (support m) / of_nat T"
    if "m \<in> set metrics" for m
  proof -
    from list_all2_setD2 [OF rows that]
    obtain f where "metrics_row tr n f = Inr m" by blast
    from metrics_row_fields(4,5) [OF this]
    show ?thesis unfolding T_def by blast
  qed
  have 1: "\<forall>m \<in> set metrics.
            relative_importance m
            = of_nat (support m) / of_nat (sum_list (map support metrics))"
    unfolding total using each by blast
  have 2: "metrics \<noteq> [] \<and> sum_list (map relative_importance metrics) = 1"
    if "\<exists>a \<in> set axps. \<exists>f. appears_in f (axp a)"
  proof -
    from that obtain a f where "a \<in> set axps" "appears_in f (axp a)" by blast
    then have "f \<in> {f. \<exists>a \<in> set axps. appears_in f (axp a)}" by blast
    then have "f \<in> fst ` set (support_counter tr)" by (simp only: keys)
    then have "map fst (support_counter tr) \<noteq> []" by auto
    with rows have ne: "metrics \<noteq> []" by (cases metrics) simp_all
    then obtain m where "m \<in> set metrics" by (cases metrics) auto
    from each [OF this] have T: "T \<noteq> 0" by blast
    have "map relative_importance metrics
          = map (\<lambda>m. (of_nat (support m) :: rat) / of_nat T) metrics"
      by (rule map_cong [OF refl]) (use each in blast)
    then have "sum_list (map relative_importance metrics)
          = of_nat (sum_list (map support metrics)) / of_nat T"
      by (simp only: sum_list_importance)
    also have "\<dots> = of_nat T / of_nat T" by (simp only: total)
    also have "\<dots> = (1::rat)" using T by simp
    finally show ?thesis using ne by blast
  qed
  show ?thesis
  proof (intro conjI impI)
    show "\<forall>m \<in> set metrics.
            relative_importance m
            = of_nat (support m) / of_nat (sum_list (map support metrics))"
      by (rule 1)
  next
    assume h: "\<exists>a \<in> set axps. \<exists>f. appears_in f (axp a)"
    from 2 [OF h] show "metrics \<noteq> []" ..
    from 2 [OF h] show "sum_list (map relative_importance metrics) = 1" ..
  qed
qed

lemma example_axps_metrics:
  "compute_feature_metrics example_axps
   = Inr [\<lparr> feature = ''A'', support = 1, coverage = 1, essentiality_ratio = 1 / 2,
            contrastive_instances = 0, relative_importance = 1 / 3 \<rparr>,
          \<lparr> feature = ''B'', support = 2, coverage = 2, essentiality_ratio = 1 / 2,
            contrastive_instances = 1, relative_importance = 2 / 3 \<rparr>]"
  by (simp add: example_axps_def compute_feature_metrics_def process_instance_def
        first_token_def py_isspace_def init_trackers_def update_feature_def metrics_row_def
        true_div_def counter_get_def Let_def)

lemma example_explanations_metrics:
  "axp_compute_feature_metrics example_explanations
   = Inr [\<lparr> stat_feature = ''A'', stat_support = 1, stat_coverage = 1 / 2,
            stat_conditions = [''A > 5''] \<rparr>,
          \<lparr> stat_feature = ''B'', stat_support = 1, stat_coverage = 1 / 2,
            stat_conditions = [''B > 10''] \<rparr>]"
  by (simp add: example_explanations_def axp_compute_feature_metrics_def first_token_def
        py_isspace_def stat_row_def true_div_def Let_def)

theorem coverage_counts_distinct_instances_witness:
  "compute_feature_metrics example_axps
   = Inr [\<lparr> feature = ''A'', support = 1, coverage = 1, essentiality_ratio = 1 / 2,
            contrastive_instances = 0, relative_importance = 1 / 3 \<rparr>,
          \<lparr> feature = ''B'', support = 2, coverage = 2, essentiality_ratio = 1 / 2,
            contrastive_instances = 1, relative_importance = 2 / 3 \<rparr>]
   \<and> card {i. \<exists>a \<in> set example_axps. instance_id a = i \<and> appears_in ''A'' (axp a)} = 1
   \<and> card {i. \<exists>a \<in> set example_axps. instance_id a = i \<and> appears_in ''B'' (axp a)} = 2
   \<and> of_nat (card {i. \<exists>a \<in> set example_explanations.
                        instance_idx a = i \<and> appears_in ''A'' (conditions a)})
       / of_nat (length example_explanations) = (1 / 2 :: rat)"
proof -
  let ?rowA = "\<lparr> feature = ''A'', support = 1, coverage = 1, essentiality_ratio = 1 / 2,
            contrastive_instances = 0, relative_importance = 1 / 3 \<rparr>"
  let ?rowB = "\<lparr> feature = ''B'', support = 2, coverage = 2, essentiality_ratio = 1 / 2,
            contrastive_instances = 1, relative_importance = 2 / 3 \<rparr>"
  let ?statA = "\<lparr> stat_feature = ''A'', stat_support = 1, stat_coverage = 1 / 2,
            stat_conditions = [''A > 5''] \<rparr>"
  let ?statB = "\<lparr> stat_feature = ''B'', stat_support = 1, stat_coverage = 1 / 2,
            stat_conditions = [''B > 10''] \<rparr>"
  note t = coverage_counts_distinct_instances [of example_axps example_explanations]
  from t example_axps_metrics
  have m: "\<forall>m \<in> set [?rowA, ?rowB].
        coverage m = card {i. \<exists>a \<in> set example_axps. instance_id a = i
                               \<and> appears_in (feature m) (axp a)}"
    by blast
  from t example_explanations_metrics
  have r: "\<forall>r \<in> set [?statA, ?statB].
        stat_coverage r
        = of_nat (card {i. \<exists>a \<in> set example_explanations. instance_idx a = i
                            \<and> appears_in (stat_feature r) (conditions a)})
          / of_nat (length example_explanations)"
    by blast
  have "coverage ?rowA = card {i. \<exists>a \<in> set example_axps. instance_id a = i
                               \<and> appears_in (feature ?rowA) (axp a)}"
    by (rule bspec [OF m]) simp
  then have cA: "card {i. \<exists>a \<in> set example_axps. instance_id a = i
      \<and> appears_in ''A'' (axp a)} = 1"
    by (simp only: feature_metrics.simps)
  have "coverage ?rowB = card {i. \<exists>a \<in> set example_axps. instance_id a = i
                               \<and> appears_in (feature ?rowB) (axp a)}"
    by (rule bspec [OF m]) simp
  then have cB: "card {i. \<exists>a \<in> set example_axps. instance_id a = i
      \<and> appears_in ''B'' (axp a)} = 2"
    by (simp only: feature_metrics.simps)
  have "stat_coverage ?statA
        = of_nat (card {i. \<exists>a \<in> set example_explanations. instance_idx a = i
                            \<and> appears_in (stat_feature ?statA) (conditions a)})
          / of_nat (length example_explanations)"
    by (rule bspec [OF r]) simp
  then have rA: "of_nat (card {i. \<exists>a \<in> set example_explanations.
                        instance_idx a = i \<and> appears_in ''A'' (conditions a)})
       / of_nat (length example_explanations) = (1 / 2 :: rat)"
    by (simp only: feature_stat.simps)
  from example_axps_metrics cA cB rA show ?thesis by (intro conjI)
qed

text \<open>
  The claim as stated fails for the aggregator of \<^verbatim>\<open>CatBoostAXPExplainer\<close>: with two
  explanation records, feature \<open>A\<close> appears for one instance and its coverage is 1/2.
\<close>

theorem axp_coverage_is_ratio_counterexample:
  "axp_compute_feature_metrics example_explanations
   = Inr [\<lparr> stat_feature = ''A'', stat_support = 1, stat_coverage = 1 / 2,
            stat_conditions = [''A > 5''] \<rparr>,
          \<lparr> stat_feature = ''B'', stat_support = 1, stat_coverage = 1 / 2,
            stat_conditions = [''B > 10''] \<rparr>]
   \<and> card {i. \<exists>a \<in> set example_explanations.
               instance_idx a = i \<and> appears_in ''A'' (conditions a)} = 1
   \<and> (1 / 2 :: rat) \<noteq> of_nat (card {i. \<exists>a \<in> set example_explanations.
               instance_idx a = i \<and> appears_in ''A'' (conditions a)})"
proof -
  let ?S = "{i. \<exists>a \<in> set example_explanations.
               instance_idx a = i \<and> appears_in ''A'' (conditions a)}"
  let ?statA = "\<lparr> stat_feature = ''A'', stat_support = 1, stat_coverage = 1 / 2,
            stat_conditions = [''A > 5''] \<rparr>"
  have len: "length example_explanations = 2" by (simp add: example_explanations_def)
  have "stat_coverage ?statA
      = of_nat (card {i. \<exists>a \<in> set example_explanations. instance_idx a = i
                          \<and> appears_in (stat_feature ?statA) (conditions a)})
        / of_nat (length example_explanations)"
    by (rule axp_coverage_ratio [OF example_explanations_metrics]) simp
  then have "(1 / 2 :: rat) = of_nat (card ?S) / of_nat 2"
    by (simp only: feature_stat.simps len)
  then have "(of_nat (card ?S) :: rat) = 1" by simp
  then have c: "card ?S = 1" by (simp only: of_nat_eq_1_iff)
  then have "(1 / 2 :: rat) \<noteq> of_nat (card ?S)" by simp
  with c example_explanations_metrics show ?thesis by (intro conjI)
qed

theorem relative_importance_normalised_witness:
  "compute_feature_metrics example_axps
   = Inr [\<lparr> feature = ''A'', support = 1, coverage = 1, essentiality_ratio = 1 / 2,
            contrastive_instances = 0, relative_importance = 1 / 3 \<rparr>,
          \<lparr> feature = ''B'', support = 2, coverage = 2, essentiality_ratio = 1 / 2,
            contrastive_instances = 1, relative_importance = 2 / 3 \<rparr>]
   \<and> (1 / 3 :: rat) = of_nat 1 / of_nat (sum_list [1, 2])
   \<and> (2 / 3 :: rat) = of_nat 2 / of_nat (sum_list [1, 2])
   \<and> sum_list [1 / 3, 2 / 3 :: rat] = 1"
proof -
  have "appears_in ''A'' [''A > 5'']"
    by (simp add: appears_in_def first_token_def py_isspace_def)
  then have h: "\<exists>a \<in> set example_axps. \<exists>f. appears_in f (axp a)"
    by (auto simp: example_axps_def)
  from relative_importance_normalised [OF example_axps_metrics] h
  show ?thesis using example_axps_metrics by simp
qed

text \<open>
  The claim as stated fails for a collection whose explanations hold no condition: it is
  not empty, the table has no row, and the sum over no rows is 0.
\<close>

theorem empty_explanation_importance_counterexample:
  "empty_explanation_axps \<noteq> []
   \<and> compute_feature_metrics empty_explanation_axps = Inr []
   \<and> sum_list (map relative_importance ([] :: feature_metrics list)) \<noteq> 1"
  by (simp add: empty_explanation_axps_def compute_feature_metrics_def process_instance_def
        init_trackers_def Let_def)

end
